theory Spec2Isabelle
  imports Complex_Main
begin

section \<open>The 2048 engine: class \<open>Game2048\<close>\<close>

text \<open>
  The board is a numpy array of shape \<open>(SIZE, SIZE)\<close>; it is modelled row-major as a list
  of rows, \<open>b ! i ! j\<close> being \<open>self.board[i][j]\<close>. Cells and the score are modelled as
  unbounded integers. The array's \<open>dtype=int\<close> has a fixed width and wraps around; the
  two agree as long as no doubled tile and no score leaves the range of the machine word
  (\<open>in_range\<close> below), and the theorems that depend on the value of a merged tile or of
  the score assume that range. \<open>cells_bounded\<close> and \<open>score_bounded\<close> bound both by
  the number of moves played.

  \<open>self.board.T\<close> and \<open>np.fliplr\<close> return views of the same buffer. The row loop of
  \<open>move\<close> reads row \<open>i\<close> of the view (the mask index \<open>row[row != 0]\<close> copies it) and
  writes row \<open>i\<close> of the view only, so each iteration touches cells no other iteration
  touches, and the views are modelled as values.

  The two calls into the \<open>random\<close> module are inputs of the model: a \<open>draw\<close> holds the index
  that \<open>random.choice\<close> selects (taken modulo the number of candidates) and the number
  that \<open>random.random()\<close> returns.
\<close>

definition SIZE :: nat where
  "SIZE = 4"

type_synonym board = "int list list"

record game =
  board :: board
  score :: int
  game_over :: bool

record draw =
  choice :: nat
  random :: real

definition zeros :: board where
  "zeros = replicate SIZE (replicate SIZE 0)"

definition empty_cells :: "board \<Rightarrow> (nat \<times> nat) list" where
  "empty_cells b = [(i, j). i \<leftarrow> [0..<SIZE], j \<leftarrow> [0..<SIZE], b ! i ! j = 0]"

definition add_new_tile :: "draw \<Rightarrow> game \<Rightarrow> game" where
  "add_new_tile d g =
     (let empty = empty_cells (board g) in
      if empty \<noteq> [] then
        (case empty ! (choice d mod length empty) of
           (i, j) \<Rightarrow>
             g\<lparr>board := (board g)[i := (board g ! i)[j := (if random d < 0.9 then 2 else 4)]]\<rparr>)
      else g)"

definition reset :: "draw \<Rightarrow> draw \<Rightarrow> game \<Rightarrow> game" where
  "reset d1 d2 g =
     (add_new_tile d2 (add_new_tile d1 (g\<lparr>board := zeros, score := 0\<rparr>)))\<lparr>game_over := False\<rparr>"

definition T :: "board \<Rightarrow> board" where
  "T b = map (\<lambda>j. map (\<lambda>i. b ! i ! j) [0..<SIZE]) [0..<SIZE]"

definition fliplr :: "board \<Rightarrow> board" where
  "fliplr b = map rev b"

text \<open>
  One iteration of \<open>for j in range(len(non_zero) - 1)\<close>, on the copy \<open>non_zero\<close> and the
  score. The doubling and the addition are those of the integers: they are the array's as
  long as the results are in its range.
\<close>

definition merge_at :: "nat \<Rightarrow> int list \<times> int \<Rightarrow> int list \<times> int" where
  "merge_at j = (\<lambda>(non_zero, sc).
     if non_zero ! j = non_zero ! (j + 1) then
       (let nz1 = non_zero[j := non_zero ! j * 2];
            nz2 = nz1[j + 1 := 0]
        in (nz2, sc + nz2 ! j))
     else (non_zero, sc))"

text \<open>The body of \<open>for i in range(SIZE)\<close> for one row: the new row and the new score.\<close>

definition slide_row :: "int list \<Rightarrow> int \<Rightarrow> int list \<times> int" where
  "slide_row row sc =
     (let non_zero = filter (\<lambda>v. v \<noteq> 0) row;
          (merged, sc') = fold merge_at [0..<length non_zero - 1] (non_zero, sc);
          non_zero' = filter (\<lambda>v. v \<noteq> 0) merged;
          new_row = non_zero' @ replicate (SIZE - length non_zero') 0
      in (new_row, sc'))"

definition slide_at :: "nat \<Rightarrow> board \<times> int \<Rightarrow> board \<times> int" where
  "slide_at i = (\<lambda>(b, sc).
     case slide_row (b ! i) sc of (new_row, sc') \<Rightarrow> (b[i := new_row], sc'))"

text \<open>
  The deterministic part of \<open>move\<close>: the forward transform, the row loop and the inverse
  transform, giving the board that is compared with \<open>board_before\<close> and the score.
\<close>

definition slide_merge :: "int \<Rightarrow> board \<Rightarrow> int \<Rightarrow> board \<times> int" where
  "slide_merge direction b0 sc0 =
     (let b1 = (if direction = 0 then T b0
                else if direction = 1 then fliplr b0
                else if direction = 2 then T (fliplr b0)
                else b0);
          (b2, sc) = fold slide_at [0..<SIZE] (b1, sc0);
          b3 = (if direction = 0 then T b2
                else if direction = 1 then fliplr b2
                else if direction = 2 then fliplr (T b2)
                else b2)
      in (b3, sc))"

definition is_game_over :: "board \<Rightarrow> bool" where
  "is_game_over b =
     (if 0 \<in> set (concat b) then False
      else list_all (\<lambda>i. list_all (\<lambda>j.
             \<not> (j < SIZE - 1 \<and> b ! i ! j = b ! i ! (j + 1)) \<and>
             \<not> (i < SIZE - 1 \<and> b ! i ! j = b ! (i + 1) ! j)) [0..<SIZE]) [0..<SIZE])"

definition move :: "draw \<Rightarrow> int \<Rightarrow> game \<Rightarrow> game \<times> bool" where
  "move d direction g =
     (let board_before = board g;
          (b, sc) = slide_merge direction (board g) (score g);
          g1 = g\<lparr>board := b, score := sc\<rparr>
      in if b \<noteq> board_before then
           (let g2 = add_new_tile d g1;
                g3 = (if is_game_over (board g2) then g2\<lparr>game_over := True\<rparr> else g2)
            in (g3, True))
         else (g1, False))"

section \<open>Auxiliary definitions\<close>

text \<open>
  The merge loop as a recursion over the list: \<open>scan_pairs\<close> is the array \<open>non_zero\<close>
  after the loop, with the zero that a merge leaves behind still in place, and
  \<open>scan_gain\<close> is what the loop adds to the score (\<open>fold_merge_at_all\<close>).
\<close>

fun scan_pairs :: "int list \<Rightarrow> int list" where
  "scan_pairs (x # y # xs) = (if x = y then (x * 2) # scan_pairs (0 # xs) else x # scan_pairs (y # xs))"
| "scan_pairs xs = xs"

fun scan_gain :: "int list \<Rightarrow> int" where
  "scan_gain (x # y # xs) = (if x = y then x * 2 + scan_gain (0 # xs) else scan_gain (y # xs))"
| "scan_gain xs = 0"

text \<open>
  The merge rule in the words of the specification, on a compacted line: two equal
  neighbours become one tile of twice the value, and the scan goes on behind both of
  them. \<open>merged_values\<close> lists the doubled values, one per merge; \<open>slide_left\<close> is
  the whole step for one line (compact, merge, pad) and \<open>row_gain\<close> its score.
\<close>

fun merge_once :: "int list \<Rightarrow> int list" where
  "merge_once (x # y # xs) = (if x = y then (2 * x) # merge_once xs else x # merge_once (y # xs))"
| "merge_once xs = xs"

fun merged_values :: "int list \<Rightarrow> int list" where
  "merged_values (x # y # xs) = (if x = y then (2 * x) # merged_values xs else merged_values (y # xs))"
| "merged_values xs = []"

definition pad :: "int list \<Rightarrow> int list" where
  "pad xs = xs @ replicate (SIZE - length xs) 0"

definition slide_left :: "int list \<Rightarrow> int list" where
  "slide_left row = pad (merge_once (filter (\<lambda>v. v \<noteq> 0) row))"

definition row_gain :: "int list \<Rightarrow> int" where
  "row_gain row = sum_list (merged_values (filter (\<lambda>v. v \<noteq> 0) row))"

text \<open>A board of shape \<open>(SIZE, SIZE)\<close>, and the two transforms of \<open>move\<close> by name.\<close>

definition wf_board :: "board \<Rightarrow> bool" where
  "wf_board b = (length b = SIZE \<and> list_all (\<lambda>row. length row = SIZE) b)"

definition forward :: "int \<Rightarrow> board \<Rightarrow> board" where
  "forward direction b =
     (if direction = 0 then T b else if direction = 1 then fliplr b
      else if direction = 2 then T (fliplr b) else b)"

definition backward :: "int \<Rightarrow> board \<Rightarrow> board" where
  "backward direction b =
     (if direction = 0 then T b else if direction = 1 then fliplr b
      else if direction = 2 then fliplr (T b) else b)"

text \<open>The number of non-zero cells of a board.\<close>

definition tiles :: "board \<Rightarrow> nat" where
  "tiles b = length (filter (\<lambda>v. v \<noteq> 0) (concat b))"

text \<open>A full row without two equal neighbours: nothing in it can slide or merge.\<close>

definition stuck :: "int list \<Rightarrow> bool" where
  "stuck row = (length row = SIZE \<and> 0 \<notin> set row \<and> distinct_adj row)"

text \<open>The values a cell may hold: 0 for an empty cell, or a power of two from 2 on.\<close>

definition valid_cell :: "int \<Rightarrow> bool" where
  "valid_cell v = (v = 0 \<or> (\<exists>k. v = 2 ^ Suc k))"

definition valid_board :: "board \<Rightarrow> bool" where
  "valid_board b = (\<forall>row \<in> set b. \<forall>v \<in> set row. valid_cell v)"

text \<open>
  The states of a game: \<open>reset\<close> from any state, with any two draws, and from there
  \<open>move\<close> in any direction with any draw.
\<close>

inductive reachable :: "game \<Rightarrow> bool" where
  start: "reachable (reset d1 d2 g)"
| step: "reachable g \<Longrightarrow> reachable (fst (move d direction g))"

text \<open>The sum of all cells, and the states a game is in after \<open>n\<close> moves.\<close>

definition total :: "board \<Rightarrow> int" where
  "total b = sum_list (concat b)"

inductive after_moves :: "nat \<Rightarrow> game \<Rightarrow> bool" where
  reset: "after_moves 0 (reset d1 d2 g)"
| move: "after_moves n g \<Longrightarrow> after_moves (Suc n) (fst (move d direction g))"

text \<open>
  The values on which the arithmetic of the array is exact, for cells of 64 bits: no cell
  is negative and twice a cell is below \<open>2 ^ 63\<close>, so that the doubling of a merge does
  not wrap; and the score is not below \<open>- 2 ^ 63\<close> and, with the sum of all cells added,
  is below \<open>2 ^ 63\<close>, so that no addition to the score wraps (the gains of a move are at
  most the sum of the cells, \<open>gains_le_total\<close>). On such values \<open>merge_at\<close> computes
  what the array computes.
\<close>

definition cells_in_range :: "board \<Rightarrow> bool" where
  "cells_in_range b = list_all (list_all (\<lambda>v. 0 \<le> v \<and> 2 * v < 2 ^ 63)) b"

definition in_range :: "board \<Rightarrow> int \<Rightarrow> bool" where
  "in_range b sc = (cells_in_range b \<and> - (2 ^ 63) \<le> sc \<and> sc + total b < 2 ^ 63)"

subsection \<open>Each direction written out on its own\<close>

text \<open>
  For the comparison with the transform route: \<open>slide_left\<close> pulls a line towards its
  first cell; \<open>slide_to_end\<close> pulls it towards its last cell, scanning from that end with
  the tile that still waits for a partner in hand. Left and right apply them to the rows,
  up and down to the columns. \<open>spec_down\<close> is the route the specification gives for down:
  transpose, flip each row, slide left, flip back, transpose back.
\<close>

fun merge_step :: "int \<Rightarrow> int option \<times> int list \<Rightarrow> int option \<times> int list" where
  "merge_step x (None, out) = (Some x, out)"
| "merge_step x (Some p, out) = (if x = p then (None, (2 * p) # out) else (Some x, p # out))"

fun flush :: "int option \<times> int list \<Rightarrow> int list" where
  "flush (None, out) = out"
| "flush (Some p, out) = p # out"

definition merge_from_end :: "int list \<Rightarrow> int list" where
  "merge_from_end xs = flush (foldr merge_step xs (None, []))"

definition slide_to_end :: "int list \<Rightarrow> int list" where
  "slide_to_end line =
     (let m = merge_from_end (filter (\<lambda>v. v \<noteq> 0) line) in replicate (SIZE - length m) 0 @ m)"

definition column :: "board \<Rightarrow> nat \<Rightarrow> int list" where
  "column b j = map (\<lambda>i. b ! i ! j) [0..<SIZE]"

definition from_columns :: "int list list \<Rightarrow> board" where
  "from_columns cs = map (\<lambda>i. map (\<lambda>j. cs ! j ! i) [0..<SIZE]) [0..<SIZE]"

definition direct_left :: "board \<Rightarrow> board" where
  "direct_left b = map slide_left b"

definition direct_right :: "board \<Rightarrow> board" where
  "direct_right b = map slide_to_end b"

definition direct_up :: "board \<Rightarrow> board" where
  "direct_up b = from_columns (map (\<lambda>j. slide_left (column b j)) [0..<SIZE])"

definition direct_down :: "board \<Rightarrow> board" where
  "direct_down b = from_columns (map (\<lambda>j. slide_to_end (column b j)) [0..<SIZE])"

definition spec_down :: "board \<Rightarrow> board" where
  "spec_down b = T (fliplr (map slide_left (fliplr (T b))))"

section \<open>The loops as list functions\<close>

lemma length_scan [simp]: "length (scan_pairs xs) = length xs"
  by (induction xs rule: scan_pairs.induct) auto

lemma fold_merge_at:
  "fold merge_at [length ps..<length ps + length ys - 1] (ps @ ys, sc)
     = (ps @ scan_pairs ys, sc + scan_gain ys)"
proof (induction ys arbitrary: ps sc rule: scan_pairs.induct)
  case (1 x y xs)
  have upt: "[length ps..<length ps + length (x # y # xs) - 1]
      = length ps # [length (ps @ [x * 2])..<length (ps @ [x * 2]) + length (y # xs) - 1]"
    by (simp add: upt_rec)
  show ?case
  proof (cases "x = y")
    case True
    have step: "merge_at (length ps) (ps @ x # y # xs, sc) = ((ps @ [x * 2]) @ 0 # xs, sc + x * 2)"
      using True by (simp add: merge_at_def nth_append list_update_append)
    have "fold merge_at [length ps..<length ps + length (x # y # xs) - 1] (ps @ x # y # xs, sc)
        = fold merge_at [length (ps @ [x * 2])..<length (ps @ [x * 2]) + length (0 # xs) - 1]
            ((ps @ [x * 2]) @ 0 # xs, sc + x * 2)"
      unfolding upt using step by simp
    also have "\<dots> = ((ps @ [x * 2]) @ scan_pairs (0 # xs), sc + x * 2 + scan_gain (0 # xs))"
      using "1.IH"(1) [OF True] by blast
    finally show ?thesis using True by simp
  next
    case False
    have step: "merge_at (length ps) (ps @ x # y # xs, sc) = ((ps @ [x]) @ y # xs, sc)"
      using False by (simp add: merge_at_def nth_append)
    have "fold merge_at [length ps..<length ps + length (x # y # xs) - 1] (ps @ x # y # xs, sc)
        = fold merge_at [length (ps @ [x])..<length (ps @ [x]) + length (y # xs) - 1]
            ((ps @ [x]) @ y # xs, sc)"
      using step by (simp add: upt_rec)
    also have "\<dots> = ((ps @ [x]) @ scan_pairs (y # xs), sc + scan_gain (y # xs))"
      using "1.IH"(2) [OF False] by blast
    finally show ?thesis using False by simp
  qed
qed simp_all

lemma fold_merge_at_all:
  "fold merge_at [0..<length ys - 1] (ys, sc) = (scan_pairs ys, sc + scan_gain ys)"
  using fold_merge_at [of "[]" ys sc] by simp

lemma scan_zero: "0 \<notin> set xs \<Longrightarrow> scan_pairs (0 # xs) = 0 # scan_pairs xs"
  by (cases xs) auto

lemma scan_gain_zero: "0 \<notin> set xs \<Longrightarrow> scan_gain (0 # xs) = scan_gain xs"
  by (cases xs) auto

lemma scan_merge_once:
  "0 \<notin> set xs \<Longrightarrow> filter (\<lambda>v. v \<noteq> 0) (scan_pairs xs) = merge_once xs"
  by (induction xs rule: merge_once.induct) (auto simp: scan_zero)

lemma scan_gain_merged:
  "0 \<notin> set xs \<Longrightarrow> scan_gain xs = sum_list (merged_values xs)"
  by (induction xs rule: merged_values.induct) (auto simp: scan_gain_zero)

lemma slide_row_eq: "slide_row row sc = (slide_left row, sc + row_gain row)"
proof -
  have nz: "0 \<notin> set (filter (\<lambda>v. v \<noteq> 0) row)" by simp
  show ?thesis
    unfolding slide_row_def slide_left_def row_gain_def pad_def Let_def fold_merge_at_all
    using scan_merge_once [OF nz] scan_gain_merged [OF nz] by simp
qed

lemma fold_slide_at:
  "fold slide_at [length ps..<length ps + length ys] (ps @ ys, sc)
     = (ps @ map slide_left ys, sc + sum_list (map row_gain ys))"
proof (induction ys arbitrary: ps sc)
  case Nil
  then show ?case by simp
next
  case (Cons y ys)
  have step: "slide_at (length ps) (ps @ y # ys, sc) = ((ps @ [slide_left y]) @ ys, sc + row_gain y)"
    by (simp add: slide_at_def slide_row_eq)
  have "fold slide_at [length ps..<length ps + length (y # ys)] (ps @ y # ys, sc)
      = fold slide_at [length (ps @ [slide_left y])..<length (ps @ [slide_left y]) + length ys]
          ((ps @ [slide_left y]) @ ys, sc + row_gain y)"
    using step by (simp add: upt_rec)
  also have "\<dots> = ((ps @ [slide_left y]) @ map slide_left ys, sc + row_gain y + sum_list (map row_gain ys))"
    by (rule Cons.IH)
  finally show ?case by simp
qed

lemma fold_slide_at_all:
  "length b = SIZE \<Longrightarrow>
   fold slide_at [0..<SIZE] (b, sc) = (map slide_left b, sc + sum_list (map row_gain b))"
  using fold_slide_at [of "[]" b sc] by simp

section \<open>Transforms\<close>

lemma wf_boardD: "wf_board b \<Longrightarrow> length b = SIZE" "wf_board b \<Longrightarrow> i < SIZE \<Longrightarrow> length (b ! i) = SIZE"
  by (auto simp: wf_board_def list_all_length)

lemma wf_boardI: "length b = SIZE \<Longrightarrow> (\<And>i. i < SIZE \<Longrightarrow> length (b ! i) = SIZE) \<Longrightarrow> wf_board b"
  by (auto simp: wf_board_def list_all_length)

lemma length_T [simp]: "length (T b) = SIZE"
  by (simp add: T_def)

lemma nth_T: "i < SIZE \<Longrightarrow> j < SIZE \<Longrightarrow> T b ! i ! j = b ! j ! i"
  by (simp add: T_def)

lemma length_nth_T: "i < SIZE \<Longrightarrow> length (T b ! i) = SIZE"
  by (simp add: T_def)

lemma wf_T [simp]: "wf_board (T b)"
  by (rule wf_boardI) (simp_all add: length_nth_T)

lemma board_eqI:
  assumes "wf_board a" "wf_board b" "\<And>i j. i < SIZE \<Longrightarrow> j < SIZE \<Longrightarrow> a ! i ! j = b ! i ! j"
  shows "a = b"
proof (rule nth_equalityI)
  show "length a = length b" using assms(1,2) by (simp add: wf_boardD)
next
  fix i assume "i < length a"
  then have i: "i < SIZE" using assms(1) by (simp add: wf_boardD)
  show "a ! i = b ! i"
    by (rule nth_equalityI) (use i assms in \<open>simp_all add: wf_boardD\<close>)
qed

lemma T_T: "wf_board b \<Longrightarrow> T (T b) = b"
  by (rule board_eqI) (simp_all add: nth_T)

lemma length_fliplr [simp]: "length (fliplr b) = length b"
  by (simp add: fliplr_def)

lemma fliplr_fliplr [simp]: "fliplr (fliplr b) = b"
  by (simp add: fliplr_def map_idI)

lemma wf_fliplr [simp]: "wf_board (fliplr b) = wf_board b"
  by (simp add: wf_board_def fliplr_def list_all_iff)

lemma nth_fliplr:
  "wf_board b \<Longrightarrow> i < SIZE \<Longrightarrow> j < SIZE \<Longrightarrow> fliplr b ! i ! j = b ! i ! (SIZE - 1 - j)"
  by (simp add: fliplr_def wf_boardD rev_nth)

lemma wf_rev [simp]: "wf_board (rev b) = wf_board b"
  by (simp add: wf_board_def list_all_iff)

lemma T_fliplr: "wf_board b \<Longrightarrow> T (fliplr b) = rev (T b)"
proof (rule board_eqI)
  fix i j assume b: "wf_board b" and ij: "i < SIZE" "j < SIZE"
  then show "T (fliplr b) ! i ! j = rev (T b) ! i ! j"
    by (simp add: nth_T nth_fliplr rev_nth)
qed simp_all

lemma fliplr_T_rev: "wf_board b \<Longrightarrow> fliplr (T (rev b)) = T b"
proof (rule board_eqI)
  fix i j assume b: "wf_board b" and ij: "i < SIZE" "j < SIZE"
  then show "fliplr (T (rev b)) ! i ! j = T b ! i ! j"
    by (simp add: nth_T nth_fliplr rev_nth wf_boardD)
qed simp_all

lemma length_merge_once_le: "length (merge_once xs) \<le> length xs"
  by (induction xs rule: merge_once.induct) auto

lemma length_slide_left: "length row \<le> SIZE \<Longrightarrow> length (slide_left row) = SIZE"
proof -
  assume "length row \<le> SIZE"
  moreover have "length (merge_once (filter (\<lambda>v. v \<noteq> 0) row)) \<le> length row"
    using length_merge_once_le [of "filter (\<lambda>v. v \<noteq> 0) row"] length_filter_le [of "\<lambda>v. v \<noteq> 0" row]
    by linarith
  ultimately show ?thesis by (simp add: slide_left_def pad_def)
qed

lemma wf_map_slide_left: "wf_board b \<Longrightarrow> wf_board (map slide_left b)"
  by (rule wf_boardI) (simp_all add: wf_boardD length_slide_left)

lemma slide_merge_eq:
  "wf_board b \<Longrightarrow>
   slide_merge direction b sc =
     (backward direction (map slide_left (forward direction b)),
      sc + sum_list (map row_gain (forward direction b)))"
  by (simp add: slide_merge_def forward_def backward_def fold_slide_at_all wf_boardD)

lemma wf_forward: "wf_board b \<Longrightarrow> wf_board (forward direction b)"
  by (simp add: forward_def)

lemma wf_backward: "wf_board b \<Longrightarrow> wf_board (backward direction b)"
  by (simp add: backward_def)

lemma backward_forward: "wf_board b \<Longrightarrow> backward direction (forward direction b) = b"
  by (simp add: backward_def forward_def T_T T_fliplr fliplr_T_rev)

lemma forward_backward: "wf_board b \<Longrightarrow> forward direction (backward direction b) = b"
proof -
  assume b: "wf_board b"
  have "T (fliplr (fliplr (T b))) = b" using b by (simp add: T_T)
  then show ?thesis using b by (simp add: backward_def forward_def T_T)
qed

section \<open>Rows\<close>

lemma length_merge_once_merged:
  "length (merge_once xs) + length (merged_values xs) = length xs"
  by (induction xs rule: merge_once.induct) auto

lemma merge_once_nonzero: "0 \<notin> set xs \<Longrightarrow> 0 \<notin> set (merge_once xs)"
  by (induction xs rule: merge_once.induct) auto

lemma merge_once_id: "merged_values xs = [] \<Longrightarrow> merge_once xs = xs"
  by (induction xs rule: merge_once.induct) (auto split: if_splits)

lemma merge_once_same_length:
  "length (merge_once xs) = length xs \<Longrightarrow> merged_values xs = []"
  using length_merge_once_merged [of xs] by simp

lemma filter_pad:
  "0 \<notin> set m \<Longrightarrow> filter (\<lambda>v. v \<noteq> (0::int)) (pad m) = m"
  by (simp add: pad_def filter_id_conv) (metis)

lemma slide_left_fixed:
  assumes "slide_left row = row"
  shows "merged_values (filter (\<lambda>v. v \<noteq> 0) row) = []"
proof -
  let ?nz = "filter (\<lambda>v. v \<noteq> 0) row"
  have "0 \<notin> set (merge_once ?nz)" by (rule merge_once_nonzero) simp
  then have "filter (\<lambda>v. v \<noteq> 0) (slide_left row) = merge_once ?nz"
    unfolding slide_left_def by (rule filter_pad)
  then have "merge_once ?nz = ?nz" using assms by simp
  then show ?thesis using merge_once_same_length [of ?nz] by simp
qed

lemma slide_left_fixed_gain: "slide_left row = row \<Longrightarrow> row_gain row = 0"
  by (simp add: row_gain_def slide_left_fixed)

lemma slide_left_full:
  assumes "0 \<notin> set (slide_left row)" "length row = SIZE"
  shows "slide_left row = row"
proof -
  let ?nz = "filter (\<lambda>v. v \<noteq> 0) row"
  let ?m = "merge_once ?nz"
  have "SIZE - length ?m = 0"
    using assms(1) by (auto simp: slide_left_def pad_def)
  moreover have "length ?m \<le> length ?nz" by (rule length_merge_once_le)
  moreover have "length ?nz \<le> length row" by simp
  ultimately have len: "length ?m = length ?nz" "length ?nz = length row"
    using assms(2) by linarith+
  have "0 \<notin> set row"
  proof
    assume "0 \<in> set row"
    then have "length ?nz < length row" by (rule length_filter_less) simp
    with len show False by simp
  qed
  then have nz: "?nz = row" by (simp add: filter_id_conv) metis
  have "?m = ?nz" using len(1) by (intro merge_once_id merge_once_same_length)
  then show ?thesis using nz assms(2) by (simp add: slide_left_def pad_def)
qed

lemma distinct_adj_merged: "distinct_adj xs \<Longrightarrow> merged_values xs = []"
  by (induction xs rule: merged_values.induct) auto

lemma slide_left_stuck:
  assumes "length row = SIZE" "0 \<notin> set row" "distinct_adj row"
  shows "slide_left row = row" "row_gain row = 0"
proof -
  have nz: "filter (\<lambda>v. v \<noteq> 0) row = row" using assms(2) by (simp add: filter_id_conv) metis
  have mv: "merged_values row = []" using assms(3) by (rule distinct_adj_merged)
  show "slide_left row = row"
    using nz merge_once_id [OF mv] assms(1) by (simp add: slide_left_def pad_def)
  show "row_gain row = 0" using nz mv by (simp add: row_gain_def)
qed

lemma merged_values_set: "set (merged_values xs) \<subseteq> (\<lambda>x. 2 * x) ` set xs"
  by (induction xs rule: merged_values.induct) auto

lemma merge_once_set: "set (merge_once xs) \<subseteq> set xs \<union> (\<lambda>x. 2 * x) ` set xs"
  by (induction xs rule: merge_once.induct) auto

lemma slide_left_set: "set (slide_left row) \<subseteq> {0} \<union> set row \<union> (\<lambda>x. 2 * x) ` set row"
proof -
  have "set (merge_once (filter (\<lambda>v. v \<noteq> 0) row)) \<subseteq> set row \<union> (\<lambda>x. 2 * x) ` set row"
    using merge_once_set [of "filter (\<lambda>v. v \<noteq> 0) row"] by auto
  then show ?thesis by (auto simp: slide_left_def pad_def)
qed

lemma row_gain_nonneg: "(\<And>v. v \<in> set row \<Longrightarrow> 0 \<le> v) \<Longrightarrow> 0 \<le> row_gain row"
  unfolding row_gain_def
  by (rule sum_list_nonneg) (use merged_values_set [of "filter (\<lambda>v. v \<noteq> 0) row"] in auto)

section \<open>Boards\<close>

lemma cells_nth:
  "wf_board b \<Longrightarrow> set (concat b) = {b ! i ! j | i j. i < SIZE \<and> j < SIZE}"
proof (intro set_eqI iffI)
  fix v assume b: "wf_board b" and "v \<in> set (concat b)"
  then obtain row where "row \<in> set b" "v \<in> set row" by auto
  then obtain i j where "i < length b" "row = b ! i" "j < length row" "v = row ! j"
    by (metis in_set_conv_nth)
  then show "v \<in> {b ! i ! j | i j. i < SIZE \<and> j < SIZE}"
    using b by (auto simp: wf_boardD)
next
  fix v assume b: "wf_board b" and "v \<in> {b ! i ! j | i j. i < SIZE \<and> j < SIZE}"
  then obtain i j where ij: "i < SIZE" "j < SIZE" "v = b ! i ! j" by auto
  then have "b ! i \<in> set b" "v \<in> set (b ! i)" using b by (simp_all add: wf_boardD)
  then show "v \<in> set (concat b)" by auto
qed

lemma cells_T: "wf_board b \<Longrightarrow> set (concat (T b)) = set (concat b)"
proof -
  assume b: "wf_board b"
  have "set (concat (T b)) = {T b ! i ! j | i j. i < SIZE \<and> j < SIZE}"
    by (rule cells_nth) simp
  also have "\<dots> = {b ! j ! i | i j. i < SIZE \<and> j < SIZE}"
    by (auto simp: nth_T) (metis nth_T)+
  also have "\<dots> = {b ! i ! j | i j. i < SIZE \<and> j < SIZE}" by auto
  also have "\<dots> = set (concat b)" using cells_nth [OF b] by simp
  finally show ?thesis .
qed

lemma cells_fliplr: "set (concat (fliplr b)) = set (concat b)"
  by (simp add: fliplr_def)

lemma cells_forward: "wf_board b \<Longrightarrow> set (concat (forward direction b)) = set (concat b)"
  by (simp add: forward_def cells_T cells_fliplr del: set_concat)

lemma cells_backward: "wf_board b \<Longrightarrow> set (concat (backward direction b)) = set (concat b)"
  by (simp add: backward_def cells_T cells_fliplr del: set_concat)

lemma rows_forward: "wf_board b \<Longrightarrow> row \<in> set (forward direction b) \<Longrightarrow> length row = SIZE"
  using wf_forward [of b direction] by (auto simp: wf_board_def list_all_iff)

lemma sum_list_map_zero: "(\<And>x. x \<in> set xs \<Longrightarrow> f x = (0::int)) \<Longrightarrow> sum_list (map f xs) = 0"
  by (induction xs) simp_all

text \<open>A slide that leaves the board as it was has merged nothing.\<close>

lemma slide_fixed_rows:
  assumes b: "wf_board b" and fixed: "fst (slide_merge direction b sc) = b"
  shows "map slide_left (forward direction b) = forward direction b"
proof -
  let ?X = "map slide_left (forward direction b)"
  have wfX: "wf_board ?X" by (intro wf_map_slide_left wf_forward b)
  have "backward direction ?X = b" using fixed b by (simp add: slide_merge_eq)
  then have "forward direction (backward direction ?X) = forward direction b" by simp
  then show ?thesis using forward_backward [OF wfX] by simp
qed

lemma slide_fixed_gain:
  assumes b: "wf_board b" and fixed: "fst (slide_merge direction b sc) = b"
  shows "snd (slide_merge direction b sc) = sc"
proof -
  have "map slide_left (forward direction b) = map id (forward direction b)"
    using slide_fixed_rows [OF b fixed] by simp
  then have "\<forall>row \<in> set (forward direction b). slide_left row = row"
    by (simp only: map_eq_conv) simp
  then have "\<forall>row \<in> set (forward direction b). row_gain row = 0"
    by (simp add: slide_left_fixed_gain)
  then have "sum_list (map row_gain (forward direction b)) = 0"
    by (intro sum_list_map_zero) blast
  then show ?thesis using b by (simp add: slide_merge_eq)
qed

lemma game_over_rows:
  assumes b: "wf_board b" and over: "is_game_over b"
  shows "\<forall>row \<in> set b. stuck row" and "\<forall>row \<in> set (T b). stuck row"
proof -
  have nz: "0 \<notin> set (concat b)"
    using over by (simp add: is_game_over_def del: set_concat split: if_splits)
  have adj: "\<And>i j. i < SIZE \<Longrightarrow> j < SIZE \<Longrightarrow>
      \<not> (j < SIZE - 1 \<and> b ! i ! j = b ! i ! (j + 1)) \<and> \<not> (i < SIZE - 1 \<and> b ! i ! j = b ! (i + 1) ! j)"
    using over by (simp add: is_game_over_def list_all_iff del: set_concat split: if_splits)
  have row: "stuck (b ! i)" if i: "i < SIZE" for i
  proof -
    have "b ! i \<in> set b" using i b by (simp add: wf_boardD)
    then have "0 \<notin> set (b ! i)" using nz by auto
    moreover have "distinct_adj (b ! i)"
      unfolding distinct_adj_conv_nth using adj [OF i] b i by (auto simp: wf_boardD)
    ultimately show ?thesis using b i by (simp add: stuck_def wf_boardD)
  qed
  show "\<forall>row \<in> set b. stuck row"
    using row b by (auto simp: in_set_conv_nth wf_boardD)
  have col: "stuck (T b ! j)" if j: "j < SIZE" for j
  proof -
    have "T b ! j \<in> set (T b)" using j by simp
    then have "set (T b ! j) \<subseteq> set (concat (T b))" by auto
    then have "0 \<notin> set (T b ! j)" using nz cells_T [OF b] by auto
    moreover have "distinct_adj (T b ! j)"
      unfolding distinct_adj_conv_nth using adj [OF _ j] j by (auto simp: length_nth_T nth_T)
    ultimately show ?thesis using j by (simp add: stuck_def length_nth_T)
  qed
  show "\<forall>row \<in> set (T b). stuck row"
    using col by (auto simp: in_set_conv_nth)
qed

lemma stuck_rev: "stuck (rev row) = stuck row"
  by (simp add: stuck_def)

lemma game_over_forward:
  assumes b: "wf_board b" and over: "is_game_over b"
  shows "\<forall>row \<in> set (forward direction b). stuck row"
proof -
  have "\<forall>row \<in> set (fliplr b). stuck row"
    using game_over_rows(1) [OF b over] by (auto simp: fliplr_def stuck_rev)
  moreover have "\<forall>row \<in> set (T (fliplr b)). stuck row"
    using game_over_rows(2) [OF b over] by (simp add: T_fliplr [OF b])
  ultimately show ?thesis
    using game_over_rows [OF b over] by (simp add: forward_def)
qed

lemma game_over_slide:
  assumes b: "wf_board b" and over: "is_game_over b"
  shows "fst (slide_merge direction b sc) = b"
proof -
  have "\<forall>row \<in> set (forward direction b). slide_left row = row"
    using game_over_forward [OF b over] by (auto simp: stuck_def intro: slide_left_stuck(1))
  then have "map slide_left (forward direction b) = forward direction b"
    by (simp add: map_idI)
  then show ?thesis using b by (simp add: slide_merge_eq backward_forward)
qed

lemma slide_full_fixed:
  assumes b: "wf_board b" and full: "0 \<notin> set (concat (fst (slide_merge direction b sc)))"
  shows "fst (slide_merge direction b sc) = b"
proof -
  let ?X = "map slide_left (forward direction b)"
  have wfX: "wf_board ?X" by (intro wf_map_slide_left wf_forward b)
  have "0 \<notin> set (concat ?X)"
    using full b cells_backward [OF wfX, of direction] by (simp add: slide_merge_eq del: set_concat)
  then have "\<forall>row \<in> set (forward direction b). 0 \<notin> set (slide_left row)" by auto
  then have "\<forall>row \<in> set (forward direction b). slide_left row = row"
    using rows_forward [OF b] by (auto intro: slide_left_full)
  then have "?X = forward direction b" by (simp add: map_idI)
  then show ?thesis using b by (simp add: slide_merge_eq backward_forward)
qed

lemma wf_slide_merge: "wf_board b \<Longrightarrow> wf_board (fst (slide_merge direction b sc))"
  by (simp add: slide_merge_eq wf_backward wf_map_slide_left wf_forward)

lemma set_empty_cells:
  "set (empty_cells b) = {(i, j). i < SIZE \<and> j < SIZE \<and> b ! i ! j = 0}"
  by (auto simp: empty_cells_def)

lemma empty_cells_nonempty:
  "wf_board b \<Longrightarrow> (empty_cells b \<noteq> []) = (0 \<in> set (concat b))"
proof -
  assume b: "wf_board b"
  have "(empty_cells b \<noteq> []) = (set (empty_cells b) \<noteq> {})" by simp
  also have "\<dots> = (\<exists>i j. i < SIZE \<and> j < SIZE \<and> b ! i ! j = 0)"
    unfolding set_empty_cells by auto
  also have "\<dots> = (0 \<in> set (concat b))"
    unfolding cells_nth [OF b] by auto
  finally show ?thesis .
qed

lemma add_new_tile_cases:
  assumes "empty_cells (board g) \<noteq> []"
  obtains i j v where "i < SIZE" "j < SIZE" "board g ! i ! j = 0" "v = 2 \<or> v = 4"
    "add_new_tile d g = g\<lparr>board := (board g)[i := (board g ! i)[j := v]]\<rparr>"
proof -
  let ?e = "empty_cells (board g)"
  let ?p = "?e ! (choice d mod length ?e)"
  have "?p \<in> set ?e" using assms by simp
  then have p: "fst ?p < SIZE" "snd ?p < SIZE" "board g ! fst ?p ! snd ?p = 0"
    unfolding set_empty_cells by (auto simp: case_prod_beta)
  have "add_new_tile d g =
      g\<lparr>board := (board g)[fst ?p := (board g ! fst ?p)[snd ?p := (if random d < 0.9 then 2 else 4)]]\<rparr>"
    using assms by (simp add: add_new_tile_def Let_def case_prod_beta)
  with p show ?thesis by (intro that [of "fst ?p" "snd ?p" "if random d < 0.9 then 2 else 4"]) auto
qed

lemma add_new_tile_full: "empty_cells (board g) = [] \<Longrightarrow> add_new_tile d g = g"
  by (simp add: add_new_tile_def)

lemma nonzero_update:
  "j < length r \<Longrightarrow> r ! j = 0 \<Longrightarrow> v \<noteq> 0 \<Longrightarrow>
   length (filter (\<lambda>v. v \<noteq> (0::int)) (r[j := v])) = Suc (length (filter (\<lambda>v. v \<noteq> 0) r))"
proof -
  assume j: "j < length r" and z: "r ! j = 0" and v: "v \<noteq> 0"
  have "r = take j r @ 0 # drop (Suc j) r" using id_take_nth_drop [OF j] z by simp
  then have "length (filter (\<lambda>v. v \<noteq> 0) r)
     = length (filter (\<lambda>v. v \<noteq> 0) (take j r)) + length (filter (\<lambda>v. v \<noteq> 0) (drop (Suc j) r))"
    by (metis (mono_tags, lifting) filter.simps(2) filter_append length_append)
  moreover have "r[j := v] = take j r @ v # drop (Suc j) r" by (rule upd_conv_take_nth_drop [OF j])
  ultimately show ?thesis using v by simp
qed

lemma tiles_update:
  assumes "i < length b" "j < length (b ! i)" "b ! i ! j = 0" "v \<noteq> 0"
  shows "tiles (b[i := (b ! i)[j := v]]) = Suc (tiles b)"
proof -
  let ?r = "(b ! i)[j := v]"
  have "b = take i b @ (b ! i) # drop (Suc i) b" by (rule id_take_nth_drop [OF assms(1)])
  then have "tiles b = tiles (take i b) + length (filter (\<lambda>v. v \<noteq> 0) (b ! i)) + tiles (drop (Suc i) b)"
    unfolding tiles_def by (metis (no_types, lifting) add.assoc concat.simps(2) concat_append filter_append length_append)
  moreover have "b[i := ?r] = take i b @ ?r # drop (Suc i) b"
    by (rule upd_conv_take_nth_drop [OF assms(1)])
  then have "tiles (b[i := ?r]) = tiles (take i b) + length (filter (\<lambda>v. v \<noteq> 0) ?r) + tiles (drop (Suc i) b)"
    unfolding tiles_def by simp
  ultimately show ?thesis using nonzero_update [OF assms(2,3,4)] by simp
qed

lemma wf_update:
  "wf_board b \<Longrightarrow> wf_board (b[i := (b ! i)[j := v]])"
  by (cases "i < SIZE") (auto simp: wf_board_def list_all_length nth_list_update)

lemma score_add_new_tile [simp]: "score (add_new_tile d g) = score g"
  by (simp add: add_new_tile_def Let_def case_prod_beta)

lemma game_over_add_new_tile [simp]: "game_over (add_new_tile d g) = game_over g"
  by (simp add: add_new_tile_def Let_def case_prod_beta)

lemma score_move: "score (fst (move d direction g)) = snd (slide_merge direction (board g) (score g))"
  by (simp add: move_def Let_def case_prod_beta)

lemma board_move_effective:
  "fst (slide_merge direction (board g) (score g)) \<noteq> board g \<Longrightarrow>
   board (fst (move d direction g)) =
     board (add_new_tile d (g\<lparr>board := fst (slide_merge direction (board g) (score g)),
                              score := snd (slide_merge direction (board g) (score g))\<rparr>))"
  by (simp add: move_def Let_def case_prod_beta)

section \<open>Cell values, spawning and reset\<close>

lemma valid_cell_simps [simp]: "valid_cell 0" "valid_cell 2" "valid_cell 4"
proof -
  show "valid_cell 0" by (simp add: valid_cell_def)
  have "(2::int) = 2 ^ Suc 0" by simp
  then show "valid_cell 2" unfolding valid_cell_def by blast
  have "(4::int) = 2 ^ Suc 1" by simp
  then show "valid_cell 4" unfolding valid_cell_def by blast
qed

lemma valid_cell_double: "valid_cell v \<Longrightarrow> valid_cell (2 * v)"
proof -
  assume "valid_cell v"
  then consider "v = 0" | k where "v = 2 ^ Suc k" by (auto simp: valid_cell_def)
  then show ?thesis
  proof cases
    case 1
    then show ?thesis by simp
  next
    case 2
    then have "2 * v = 2 ^ Suc (Suc k)" by simp
    then show ?thesis unfolding valid_cell_def by blast
  qed
qed

lemma valid_board_cells: "valid_board b = (\<forall>v \<in> set (concat b). valid_cell v)"
  by (auto simp: valid_board_def)

lemma valid_slide_left:
  "(\<forall>v \<in> set row. valid_cell v) \<Longrightarrow> (\<forall>v \<in> set (slide_left row). valid_cell v)"
  using slide_left_set [of row] by (auto simp: valid_cell_double)

lemma valid_slide_merge:
  assumes b: "wf_board b" and v: "valid_board b"
  shows "valid_board (fst (slide_merge direction b sc))"
proof -
  let ?X = "map slide_left (forward direction b)"
  have wfX: "wf_board ?X" by (intro wf_map_slide_left wf_forward b)
  have "\<forall>v \<in> set (concat (forward direction b)). valid_cell v"
    using v unfolding valid_board_cells cells_forward [OF b] .
  then have "\<forall>row \<in> set (forward direction b). \<forall>v \<in> set row. valid_cell v" by auto
  then have "\<forall>row \<in> set (forward direction b). \<forall>v \<in> set (slide_left row). valid_cell v"
    using valid_slide_left by blast
  then have "\<forall>v \<in> set (concat ?X). valid_cell v" by auto
  then have "valid_board (backward direction ?X)"
    unfolding valid_board_cells cells_backward [OF wfX] .
  then show ?thesis using b by (simp add: slide_merge_eq)
qed

lemma valid_update:
  assumes "valid_board b" "valid_cell v"
  shows "valid_board (b[i := (b ! i)[j := v]])"
proof (cases "i < length b")
  case True
  then have "b ! i \<in> set b" by simp
  then have "\<forall>x \<in> set ((b ! i)[j := v]). valid_cell x"
    using assms set_update_subset_insert [of "b ! i" j v] by (auto simp: valid_board_def)
  then show ?thesis
    using assms(1) set_update_subset_insert [of b i "(b ! i)[j := v]"]
    unfolding valid_board_def by blast
next
  case False
  then have "b[i := (b ! i)[j := v]] = b" by (simp add: list_update_beyond)
  then show ?thesis using assms(1) by simp
qed

lemma valid_add_new_tile:
  "valid_board (board g) \<Longrightarrow> valid_board (board (add_new_tile d g))"
  by (simp add: add_new_tile_def Let_def case_prod_beta valid_update)

lemma wf_add_new_tile:
  "wf_board (board g) \<Longrightarrow> wf_board (board (add_new_tile d g))"
  by (simp add: add_new_tile_def Let_def case_prod_beta wf_update)

lemma board_move:
  "board (fst (move d direction g)) = fst (slide_merge direction (board g) (score g)) \<or>
   board (fst (move d direction g)) =
     board (add_new_tile d (g\<lparr>board := fst (slide_merge direction (board g) (score g)),
                              score := snd (slide_merge direction (board g) (score g))\<rparr>))"
  by (simp add: move_def Let_def case_prod_beta)

lemma wf_move: "wf_board (board g) \<Longrightarrow> wf_board (board (fst (move d direction g)))"
  using board_move [of d direction g]
    wf_add_new_tile [of "g\<lparr>board := fst (slide_merge direction (board g) (score g)),
                              score := snd (slide_merge direction (board g) (score g))\<rparr>" d]
  by (auto simp: wf_slide_merge)

lemma valid_move:
  "wf_board (board g) \<Longrightarrow> valid_board (board g) \<Longrightarrow> valid_board (board (fst (move d direction g)))"
  using board_move [of d direction g]
    valid_add_new_tile [of "g\<lparr>board := fst (slide_merge direction (board g) (score g)),
                              score := snd (slide_merge direction (board g) (score g))\<rparr>" d]
  by (auto simp: valid_slide_merge)

lemma wf_zeros [simp]: "wf_board zeros"
  by (simp add: wf_board_def zeros_def list_all_iff)

lemma valid_zeros [simp]: "valid_board zeros"
  by (auto simp: valid_board_def zeros_def)

lemma board_reset:
  "board (reset d1 d2 g) = board (add_new_tile d2 (add_new_tile d1 (g\<lparr>board := zeros, score := 0\<rparr>)))"
  by (simp add: reset_def)

lemma wf_reset: "wf_board (board (reset d1 d2 g))"
  unfolding board_reset by (intro wf_add_new_tile) simp

lemma valid_reset: "valid_board (board (reset d1 d2 g))"
  unfolding board_reset by (intro valid_add_new_tile) simp

lemma reachable_wf_valid: "reachable g \<Longrightarrow> wf_board (board g) \<and> valid_board (board g)"
  by (induction rule: reachable.induct) (simp_all add: wf_reset valid_reset wf_move valid_move)

lemma length_concat_rows:
  "(\<forall>row \<in> set b. length row = n) \<Longrightarrow> length (concat b) = length b * n"
  by (induction b) simp_all

lemma tiles_full:
  assumes "wf_board b" "0 \<notin> set (concat b)"
  shows "tiles b = SIZE * SIZE"
proof -
  have "filter (\<lambda>v. v \<noteq> 0) (concat b) = concat b"
    using assms(2) by (simp only: filter_id_conv) metis
  moreover have "length (concat b) = SIZE * SIZE"
    using assms(1) length_concat_rows [of b SIZE] by (simp add: wf_board_def list_all_iff)
  ultimately show ?thesis by (simp add: tiles_def)
qed

lemma empty_cells_left:
  "wf_board b \<Longrightarrow> tiles b < SIZE * SIZE \<Longrightarrow> empty_cells b \<noteq> []"
  using tiles_full [of b] empty_cells_nonempty [of b] by auto

lemma tiles_zeros [simp]: "tiles zeros = 0"
  by (simp add: tiles_def zeros_def filter_concat)

lemma tiles_add_new_tile:
  assumes wf: "wf_board (board g)" and e: "empty_cells (board g) \<noteq> []"
  shows "tiles (board (add_new_tile d g)) = Suc (tiles (board g))"
proof (rule add_new_tile_cases [OF e, of d])
  fix i j v
  assume "i < SIZE" "j < SIZE" "board g ! i ! j = 0" "v = 2 \<or> v = 4"
    and "add_new_tile d g = g\<lparr>board := (board g)[i := (board g ! i)[j := v]]\<rparr>"
  then show ?thesis
    using wf tiles_update [of i "board g" j v] by (auto simp: wf_boardD)
qed

lemma cells_update:
  assumes "\<forall>row \<in> set b. \<forall>x \<in> set row. P x" "P v"
  shows "\<forall>row \<in> set (b[i := (b ! i)[j := v]]). \<forall>x \<in> set row. P x"
proof (cases "i < length b")
  case True
  then have "b ! i \<in> set b" by simp
  then have "\<forall>x \<in> set ((b ! i)[j := v]). P x"
    using assms set_update_subset_insert [of "b ! i" j v] by auto
  then show ?thesis
    using assms(1) set_update_subset_insert [of b i "(b ! i)[j := v]"] by blast
next
  case False
  then have "b[i := (b ! i)[j := v]] = b" by (simp add: list_update_beyond)
  then show ?thesis using assms(1) by simp
qed

lemma cells_add_new_tile:
  assumes "\<forall>row \<in> set (board g). \<forall>x \<in> set row. P x" "P 2" "P 4"
  shows "\<forall>row \<in> set (board (add_new_tile d g)). \<forall>x \<in> set row. P x"
proof (cases "empty_cells (board g) = []")
  case True
  then show ?thesis using assms(1) by (simp add: add_new_tile_full)
next
  case False
  show ?thesis
  proof (rule add_new_tile_cases [OF False, of d])
    fix i j v
    assume v: "v = 2 \<or> v = 4"
      and new: "add_new_tile d g = g\<lparr>board := (board g)[i := (board g ! i)[j := v]]\<rparr>"
    have "P v" using v assms(2,3) by auto
    then show ?thesis using cells_update [OF assms(1), of v i j] new by simp
  qed
qed

lemma size_bound: "Suc 0 < SIZE * SIZE"
  by (simp add: SIZE_def)

section \<open>The directions written out\<close>

lemma fold_merge_step:
  "flush (fold merge_step ys (None, out)) = rev (merge_once ys) @ out"
  "flush (fold merge_step ys (Some p, out)) = rev (merge_once (p # ys)) @ out"
proof (induction ys arbitrary: p out)
  case Nil
  { case 1 show ?case by simp }
  { case 2 show ?case by simp }
next
  case (Cons y ys)
  { case 1 show ?case using Cons.IH(2) [of y out] by simp }
  { case 2 show ?case using Cons.IH(1) [of "(2 * p) # out"] Cons.IH(2) [of y "p # out"] by auto }
qed

lemma merge_from_end_eq: "merge_from_end xs = rev (merge_once (rev xs))"
  using fold_merge_step(1) [of "rev xs" "[]"] by (simp add: merge_from_end_def foldr_conv_fold)

lemma slide_to_end_eq: "slide_to_end line = rev (slide_left (rev line))"
  by (simp add: slide_to_end_def slide_left_def pad_def merge_from_end_eq rev_filter)

lemma column_T: "j < SIZE \<Longrightarrow> column b j = T b ! j"
  by (simp add: column_def T_def)

lemma from_columns_T: "from_columns cs = T cs"
  by (simp add: from_columns_def T_def)

lemma columns_T: "map (\<lambda>j. f (column b j)) [0..<SIZE] = map f (T b)"
  by (rule nth_equalityI) (simp_all add: column_T)

lemma direct_left_eq: "wf_board b \<Longrightarrow> fst (slide_merge 3 b sc) = direct_left b"
  by (simp add: slide_merge_eq forward_def backward_def direct_left_def)

lemma direct_right_eq: "wf_board b \<Longrightarrow> fst (slide_merge 1 b sc) = direct_right b"
  by (simp add: slide_merge_eq forward_def backward_def direct_right_def fliplr_def
      slide_to_end_eq comp_def)

lemma direct_up_eq: "wf_board b \<Longrightarrow> fst (slide_merge 0 b sc) = direct_up b"
  by (simp add: slide_merge_eq forward_def backward_def direct_up_def columns_T from_columns_T)

lemma direct_down_spec: "direct_down b = spec_down b"
proof -
  have "direct_down b = T (map slide_to_end (T b))"
    by (simp add: direct_down_def columns_T from_columns_T)
  also have "map slide_to_end (T b) = fliplr (map slide_left (fliplr (T b)))"
    by (simp add: fliplr_def slide_to_end_eq comp_def)
  finally show ?thesis by (simp add: spec_down_def)
qed

section \<open>How far cells and score can grow\<close>

text \<open>
  The slide and merge keeps the sum of the cells and a spawn adds at most 4 to it, so after
  \<open>n\<close> moves no cell is above \<open>8 + 4 * n\<close> and the score is at most
  \<open>n * (8 + 4 * n)\<close>: the integers of the model and the fixed-width integers of the array
  agree, for 64-bit cells, on every game of fewer than \<open>2 ^ 30\<close> moves
  (\<open>after_moves_in_range\<close>).
\<close>

lemma sum_list_concat: "sum_list (concat xss) = sum_list (map sum_list (xss :: int list list))"
  by (induction xss) simp_all

lemma sum_list_merge_once: "sum_list (merge_once xs) = sum_list xs"
  by (induction xs rule: merge_once.induct) auto

lemma sum_list_nonzero: "sum_list (filter (\<lambda>v. v \<noteq> 0) xs) = sum_list (xs :: int list)"
  by (induction xs) auto

lemma sum_list_slide_left: "sum_list (slide_left row) = sum_list row"
  by (simp add: slide_left_def pad_def sum_list_merge_once sum_list_nonzero sum_list_replicate)

lemma total_map_slide_left: "total (map slide_left b) = total b"
  by (simp add: total_def sum_list_concat comp_def sum_list_slide_left)

lemma total_fliplr: "total (fliplr b) = total b"
  by (simp add: total_def fliplr_def sum_list_concat comp_def sum_list_rev)

lemma total_T_sum: "total (T b) = (\<Sum>j = 0..<SIZE. \<Sum>i = 0..<SIZE. b ! i ! j)"
  by (simp add: total_def T_def sum_list_concat comp_def interv_sum_list_conv_sum_set_nat)

lemma total_T: "wf_board b \<Longrightarrow> total (T b) = total b"
proof -
  assume b: "wf_board b"
  have "total b = total (T (T b))" using b by (simp add: T_T)
  also have "\<dots> = (\<Sum>j = 0..<SIZE. \<Sum>i = 0..<SIZE. T b ! i ! j)" by (rule total_T_sum)
  also have "\<dots> = (\<Sum>j = 0..<SIZE. \<Sum>i = 0..<SIZE. b ! j ! i)" by (simp add: nth_T)
  also have "\<dots> = (\<Sum>i = 0..<SIZE. \<Sum>j = 0..<SIZE. b ! j ! i)" by (rule sum.swap)
  also have "\<dots> = total (T b)" by (simp add: total_T_sum)
  finally show ?thesis by simp
qed

lemma total_slide_merge: "wf_board b \<Longrightarrow> total (fst (slide_merge direction b sc)) = total b"
  by (simp add: slide_merge_eq forward_def backward_def total_T total_fliplr total_map_slide_left
      wf_map_slide_left)

lemma sum_list_update_zero:
  "j < length r \<Longrightarrow> r ! j = 0 \<Longrightarrow> sum_list (r[j := v]) = sum_list r + (v::int)"
proof -
  assume j: "j < length r" and z: "r ! j = 0"
  have "sum_list r = sum_list (take j r @ 0 # drop (Suc j) r)"
    using id_take_nth_drop [OF j] z by simp
  then show ?thesis by (simp add: upd_conv_take_nth_drop [OF j])
qed

lemma total_update:
  assumes "i < length b" "j < length (b ! i)" "b ! i ! j = 0"
  shows "total (b[i := (b ! i)[j := v]]) = total b + v"
proof -
  have "total b = sum_list (concat (take i b @ (b ! i) # drop (Suc i) b))"
    unfolding total_def using id_take_nth_drop [OF assms(1)] by simp
  then show ?thesis
    using sum_list_update_zero [OF assms(2,3), of v]
    by (simp add: total_def upd_conv_take_nth_drop [OF assms(1)])
qed

lemma total_add_new_tile:
  assumes wf: "wf_board (board g)"
  shows "total (board (add_new_tile d g)) \<le> total (board g) + 4"
proof (cases "empty_cells (board g) = []")
  case True
  then show ?thesis by (simp add: add_new_tile_full)
next
  case False
  show ?thesis
  proof (rule add_new_tile_cases [OF False, of d])
    fix i j v
    assume "i < SIZE" "j < SIZE" "board g ! i ! j = 0" "v = 2 \<or> v = 4"
      and "add_new_tile d g = g\<lparr>board := (board g)[i := (board g ! i)[j := v]]\<rparr>"
    then show ?thesis
      using wf total_update [of i "board g" j v] by (auto simp: wf_boardD)
  qed
qed

lemma total_move:
  assumes wf: "wf_board (board g)"
  shows "total (board (fst (move d direction g))) \<le> total (board g) + 4"
proof -
  let ?g1 = "g\<lparr>board := fst (slide_merge direction (board g) (score g)),
                 score := snd (slide_merge direction (board g) (score g))\<rparr>"
  have "wf_board (board ?g1)" using wf by (simp add: wf_slide_merge)
  then have "total (board (add_new_tile d ?g1)) \<le> total (board ?g1) + 4"
    by (rule total_add_new_tile)
  then show ?thesis
    using board_move [of d direction g] total_slide_merge [OF wf, of direction "score g"] by auto
qed

lemma total_zeros [simp]: "total zeros = 0"
  by (simp add: total_def zeros_def sum_list_concat sum_list_replicate)

lemma total_reset: "total (board (reset d1 d2 g)) \<le> 8"
proof -
  let ?g0 = "g\<lparr>board := zeros, score := 0\<rparr>"
  have "total (board (add_new_tile d1 ?g0)) \<le> 4"
    using total_add_new_tile [of ?g0 d1] by simp
  moreover have "wf_board (board (add_new_tile d1 ?g0))" by (intro wf_add_new_tile) simp
  then have "total (board (add_new_tile d2 (add_new_tile d1 ?g0))) \<le> total (board (add_new_tile d1 ?g0)) + 4"
    by (rule total_add_new_tile)
  ultimately show ?thesis by (simp add: board_reset)
qed

lemma after_moves_reachable: "after_moves n g \<Longrightarrow> reachable g"
  by (induction rule: after_moves.induct) (auto intro: reachable.intros)

lemma after_moves_total: "after_moves n g \<Longrightarrow> total (board g) \<le> 8 + 4 * int n"
proof (induction rule: after_moves.induct)
  case (reset d1 d2 g)
  then show ?case using total_reset [of d1 d2 g] by simp
next
  case (move n g d direction)
  have "wf_board (board g)" using after_moves_reachable [OF move.hyps] reachable_wf_valid by blast
  then show ?case using total_move [of g d direction] move.IH by simp
qed

lemma valid_cell_nonneg: "valid_cell v \<Longrightarrow> 0 \<le> v"
  by (auto simp: valid_cell_def)

lemma cells_bounded:
  assumes "after_moves n g" "row \<in> set (board g)" "v \<in> set row"
  shows "0 \<le> v \<and> v \<le> 8 + 4 * int n"
proof -
  have valid: "valid_board (board g)"
    using after_moves_reachable [OF assms(1)] reachable_wf_valid by blast
  then have nonneg: "\<And>x. x \<in> set (concat (board g)) \<Longrightarrow> 0 \<le> x"
    by (auto simp: valid_board_def valid_cell_nonneg)
  have "v \<in> set (concat (board g))" using assms(2,3) by auto
  then have "v \<le> total (board g)"
    unfolding total_def using nonneg by (intro member_le_sum_list) auto
  then show ?thesis
    using after_moves_total [OF assms(1)] nonneg [OF \<open>v \<in> set (concat (board g))\<close>] by simp
qed

lemma merged_values_le:
  "(\<And>x. x \<in> set xs \<Longrightarrow> 0 \<le> x) \<Longrightarrow> sum_list (merged_values xs) \<le> sum_list xs"
proof (induction xs rule: merged_values.induct)
  case (1 x y xs)
  have x: "0 \<le> x" and y: "0 \<le> y" and rest: "\<And>z. z \<in> set xs \<Longrightarrow> 0 \<le> z"
    using "1.prems" by simp_all
  show ?case
  proof (cases "x = y")
    case True
    have "sum_list (merged_values xs) \<le> sum_list xs"
      using "1.IH"(1) [OF True] rest by simp
    then show ?thesis using True by simp
  next
    case False
    have "sum_list (merged_values (y # xs)) \<le> sum_list (y # xs)"
      using "1.IH"(2) [OF False] "1.prems" by simp
    then show ?thesis using False x by simp
  qed
qed (auto intro: sum_list_nonneg)

lemma row_gain_le: "(\<And>x. x \<in> set row \<Longrightarrow> 0 \<le> x) \<Longrightarrow> row_gain row \<le> sum_list row"
  using merged_values_le [of "filter (\<lambda>v. v \<noteq> 0) row"]
  by (simp add: row_gain_def sum_list_nonzero)

lemma gains_le_total:
  "(\<And>x. x \<in> set (concat b) \<Longrightarrow> 0 \<le> x) \<Longrightarrow> sum_list (map row_gain b) \<le> total b"
proof (induction b)
  case Nil
  then show ?case by (simp add: total_def)
next
  case (Cons row b)
  have "row_gain row \<le> sum_list row" using Cons.prems by (intro row_gain_le) simp
  moreover have "sum_list (map row_gain b) \<le> total b" using Cons.prems by (intro Cons.IH) simp
  ultimately show ?case by (simp add: total_def)
qed

lemma total_forward: "wf_board b \<Longrightarrow> total (forward direction b) = total b"
  by (simp add: forward_def total_T total_fliplr)

lemma score_move_le:
  assumes wf: "wf_board (board g)" and valid: "valid_board (board g)"
  shows "score (fst (move d direction g)) \<le> score g + total (board g)"
proof -
  have "\<And>x. x \<in> set (concat (forward direction (board g))) \<Longrightarrow> 0 \<le> x"
    using valid unfolding cells_forward [OF wf] valid_board_cells by (blast intro: valid_cell_nonneg)
  then have "sum_list (map row_gain (forward direction (board g))) \<le> total (forward direction (board g))"
    by (rule gains_le_total)
  then show ?thesis using wf by (simp add: score_move slide_merge_eq total_forward)
qed

lemma score_bounded: "after_moves n g \<Longrightarrow> score g \<le> int n * (8 + 4 * int n)"
proof (induction rule: after_moves.induct)
  case (reset d1 d2 g)
  then show ?case by (simp add: reset_def)
next
  case (move n g d direction)
  have inv: "wf_board (board g)" "valid_board (board g)"
    using after_moves_reachable [OF move.hyps] reachable_wf_valid by blast+
  have "score (fst (move d direction g)) \<le> score g + (8 + 4 * int n)"
    using score_move_le [OF inv, of d direction] after_moves_total [OF move.hyps] by simp
  also have "\<dots> \<le> int n * (8 + 4 * int n) + (8 + 4 * int n)" using move.IH by simp
  also have "\<dots> \<le> int (Suc n) * (8 + 4 * int (Suc n))" by (simp add: algebra_simps)
  finally show ?case .
qed

subsection \<open>Values in the range of the array\<close>

lemma cells_in_rangeD:
  "cells_in_range b \<Longrightarrow> v \<in> set (concat b) \<Longrightarrow> 0 \<le> v \<and> 2 * v < 2 ^ 63"
  by (auto simp: cells_in_range_def list_all_iff)

lemma cells_in_rangeI:
  "(\<And>v. v \<in> set (concat b) \<Longrightarrow> 0 \<le> v \<and> 2 * v < 2 ^ 63) \<Longrightarrow> cells_in_range b"
  by (auto simp: cells_in_range_def list_all_iff)

lemma score_move_range:
  assumes wf: "wf_board (board g)" and r: "in_range (board g) (score g)"
  shows "score g \<le> score (fst (move d direction g))"
    and "score (fst (move d direction g)) < 2 ^ 63"
proof -
  let ?rows = "forward direction (board g)"
  have cells: "\<And>v. v \<in> set (concat ?rows) \<Longrightarrow> 0 \<le> v"
    using r cells_in_rangeD [of "board g"] unfolding cells_forward [OF wf] in_range_def by blast
  have eq: "score (fst (move d direction g)) = score g + sum_list (map row_gain ?rows)"
    using wf by (simp add: score_move slide_merge_eq)
  have "0 \<le> sum_list (map row_gain ?rows)"
    by (rule sum_list_nonneg) (use cells in \<open>auto intro!: row_gain_nonneg\<close>)
  then show "score g \<le> score (fst (move d direction g))" using eq by simp
  have "sum_list (map row_gain ?rows) \<le> total ?rows" using cells by (rule gains_le_total)
  then have "sum_list (map row_gain ?rows) \<le> total (board g)" using wf by (simp add: total_forward)
  then show "score (fst (move d direction g)) < 2 ^ 63"
    using eq r by (simp add: in_range_def)
qed

lemma score_nonneg: "after_moves n g \<Longrightarrow> 0 \<le> score g"
proof (induction rule: after_moves.induct)
  case (reset d1 d2 g)
  then show ?case by (simp add: reset_def)
next
  case (move n g d direction)
  have inv: "wf_board (board g)" "valid_board (board g)"
    using after_moves_reachable [OF move.hyps] reachable_wf_valid by blast+
  let ?rows = "forward direction (board g)"
  have "\<And>v. v \<in> set (concat ?rows) \<Longrightarrow> 0 \<le> v"
    using inv(2) unfolding cells_forward [OF inv(1)] valid_board_cells
    by (blast intro: valid_cell_nonneg)
  then have "0 \<le> sum_list (map row_gain ?rows)"
    by (intro sum_list_nonneg) (auto intro!: row_gain_nonneg)
  then show ?case using move.IH inv(1) by (simp add: score_move slide_merge_eq)
qed

lemma after_moves_cells_in_range:
  assumes "after_moves n g" "n < 2 ^ 59"
  shows "cells_in_range (board g)"
proof (rule cells_in_rangeI)
  fix v assume "v \<in> set (concat (board g))"
  then obtain row where "row \<in> set (board g)" "v \<in> set row" by auto
  then have "0 \<le> v" "v \<le> 8 + 4 * int n" using cells_bounded [OF assms(1)] by blast+
  moreover have "int n < 2 ^ 59" using assms(2) by (metis of_nat_less_iff of_nat_numeral of_nat_power)
  ultimately show "0 \<le> v \<and> 2 * v < 2 ^ 63" by simp
qed

lemma after_moves_in_range:
  assumes "after_moves n g" "n < 2 ^ 30"
  shows "in_range (board g) (score g)"
proof -
  have n: "int n < 2 ^ 30" using assms(2) by (metis of_nat_less_iff of_nat_numeral of_nat_power)
  have "n < 2 ^ 59" using assms(2) by (rule less_trans) simp
  then have c: "cells_in_range (board g)" by (rule after_moves_cells_in_range [OF assms(1)])
  have s0: "0 \<le> score g" by (rule score_nonneg [OF assms(1)])
  have "int n * (8 + 4 * int n) \<le> 2 ^ 30 * (8 + 4 * 2 ^ 30)"
    using n by (intro mult_mono) simp_all
  then have "score g \<le> 2 ^ 30 * (8 + 4 * 2 ^ 30)"
    using score_bounded [OF assms(1)] by simp
  moreover have "total (board g) \<le> 8 + 4 * 2 ^ 30"
    using after_moves_total [OF assms(1)] n by simp
  ultimately have "score g + total (board g) < 2 ^ 63" by simp
  then show ?thesis using c s0 by (simp add: in_range_def)
qed

lemma slide_merge_cells_range:
  assumes wf: "wf_board b" and r: "cells_in_range b"
  shows "list_all (list_all (\<lambda>v. 0 \<le> v \<and> v < 2 ^ 63)) (fst (slide_merge direction b sc))"
proof -
  let ?X = "map slide_left (forward direction b)"
  have wfX: "wf_board ?X" by (intro wf_map_slide_left wf_forward wf)
  have in_rows: "\<And>row v. row \<in> set (forward direction b) \<Longrightarrow> v \<in> set row \<Longrightarrow> 0 \<le> v \<and> 2 * v < 2 ^ 63"
  proof -
    fix row v assume "row \<in> set (forward direction b)" "v \<in> set row"
    then have "v \<in> set (concat (forward direction b))" by auto
    then show "0 \<le> v \<and> 2 * v < 2 ^ 63"
      using cells_in_rangeD [OF r] unfolding cells_forward [OF wf] by blast
  qed
  have "\<And>v. v \<in> set (concat ?X) \<Longrightarrow> 0 \<le> v \<and> v < 2 ^ 63"
  proof -
    fix v assume "v \<in> set (concat ?X)"
    then obtain row where row: "row \<in> set (forward direction b)" and v: "v \<in> set (slide_left row)"
      by auto
    then consider "v = 0" | "v \<in> set row" | x where "x \<in> set row" "v = 2 * x"
      using slide_left_set [of row] by auto
    then show "0 \<le> v \<and> v < 2 ^ 63"
    proof cases
      case 1 then show ?thesis by simp
    next
      case 2 then show ?thesis using in_rows [OF row, of v] by simp
    next
      case 3 then show ?thesis using in_rows [OF row, of x] by simp
    qed
  qed
  then have "\<And>v. v \<in> set (concat (backward direction ?X)) \<Longrightarrow> 0 \<le> v \<and> v < 2 ^ 63"
    unfolding cells_backward [OF wfX] .
  then show ?thesis using wf by (auto simp: slide_merge_eq list_all_iff)
qed

section \<open>Claims\<close>

text \<open>
  C2. On every \<open>SIZE \<times> SIZE\<close> board the deterministic phase of \<open>move(2)\<close> (down), that is
  the board that is compared with \<open>board_before\<close> before any spawn and the score, is the same
  as that of \<open>move(0)\<close> (up): \<open>np.fliplr(self.board).T\<close> lists the columns of the board
  top to bottom, as \<open>self.board.T\<close> does, only in the opposite order.
\<close>

theorem C2_down_slides_as_up:
  "wf_board b \<Longrightarrow> slide_merge 2 b sc = slide_merge 0 b sc"
proof -
  assume b: "wf_board b"
  have "fliplr (T (map slide_left (rev (T b)))) = T (map slide_left (T b))"
    using fliplr_T_rev [OF wf_map_slide_left [OF wf_T [of b]]] by (simp add: rev_map)
  moreover have "sum_list (map row_gain (rev (T b))) = sum_list (map row_gain (T b))"
    by (simp add: rev_map [symmetric])
  ultimately show ?thesis
    using b by (simp add: slide_merge_eq forward_def backward_def T_fliplr)
qed

theorem C2_down_slides_as_up_witness:
  "wf_board [[0,0,0,0],[0,0,0,0],[0,0,0,0],[0,4,2,0]] \<and>
   slide_merge 2 [[0,0,0,0],[0,0,0,0],[0,0,0,0],[0,4,2,0]] 0 = ([[0,4,2,0],[0,0,0,0],[0,0,0,0],[0,0,0,0]], 0) \<and>
   slide_merge 0 [[0,0,0,0],[0,0,0,0],[0,0,0,0],[0,4,2,0]] 0 = ([[0,4,2,0],[0,0,0,0],[0,0,0,0],[0,0,0,0]], 0)"
proof -
  have wf: "wf_board [[0,0,0,0],[0,0,0,0],[0,0,0,0],[0,4,2,0]]"
    by (simp add: wf_board_def SIZE_def)
  have up: "slide_merge 0 [[0,0,0,0],[0,0,0,0],[0,0,0,0],[0,4,2,0]] 0 = ([[0,4,2,0],[0,0,0,0],[0,0,0,0],[0,0,0,0]], 0)"
    by code_simp
  show ?thesis
    using wf up C2_down_slides_as_up [OF wf, of 0] by simp
qed


text \<open>
  C3. The claim that a direction outside the four valid ones is rejected does not hold:
  \<open>move\<close> tests the direction against 0, 1 and 2 only and raises nowhere. Amended: for
  every direction other than 0, 1 and 2, valid or not, \<open>move\<close> does what it does for
  3 (left).
\<close>

theorem C3_other_direction_is_left:
  "direction \<notin> {0, 1, 2} \<Longrightarrow> move d direction g = move d 3 g"
  by (simp add: move_def slide_merge_def)

theorem C3_other_direction_is_left_witness:
  "(7::int) \<notin> {0, 1, 2} \<and>
   move \<lparr>choice = 0, random = 0\<rparr> 7 \<lparr>board = [[0,2,2,0],[0,0,0,0],[0,0,0,0],[0,0,0,0]], score = 0, game_over = False\<rparr>
   = move \<lparr>choice = 0, random = 0\<rparr> 3 \<lparr>board = [[0,2,2,0],[0,0,0,0],[0,0,0,0],[0,0,0,0]], score = 0, game_over = False\<rparr>"
proof -
  have h: "(7::int) \<notin> {0, 1, 2}" by simp
  show ?thesis using h C3_other_direction_is_left [OF h] by blast
qed

text \<open>
  C3, counterexample. Direction 7 is not rejected: on a board whose first row is
  \<open>[0,2,2,0]\<close> the call slides and merges to the left, adds 4 to the score, spawns a
  tile and returns \<open>True\<close>, exactly as direction 3 does.
\<close>

theorem C3_not_rejected:
  "move \<lparr>choice = 0, random = 0\<rparr> 7 \<lparr>board = [[0,2,2,0],[0,0,0,0],[0,0,0,0],[0,0,0,0]], score = 0, game_over = False\<rparr>
     = (\<lparr>board = [[4,2,0,0],[0,0,0,0],[0,0,0,0],[0,0,0,0]], score = 4, game_over = False\<rparr>, True) \<and>
   move \<lparr>choice = 0, random = 0\<rparr> 3 \<lparr>board = [[0,2,2,0],[0,0,0,0],[0,0,0,0],[0,0,0,0]], score = 0, game_over = False\<rparr>
     = (\<lparr>board = [[4,2,0,0],[0,0,0,0],[0,0,0,0],[0,0,0,0]], score = 4, game_over = False\<rparr>, True)"
proof -
  have s: "slide_merge 7 [[0,2,2,0],[0,0,0,0],[0,0,0,0],[0,0,0,0]] 0 = ([[4,0,0,0],[0,0,0,0],[0,0,0,0],[0,0,0,0]], 4)"
    "slide_merge 3 [[0,2,2,0],[0,0,0,0],[0,0,0,0],[0,0,0,0]] 0 = ([[4,0,0,0],[0,0,0,0],[0,0,0,0],[0,0,0,0]], 4)"
    by code_simp+
  have e: "empty_cells [[4,0,0,0],[0,0,0,0],[0,0,0,0],[0,0,0,0]] ! 0 = (0, 1)"
    "empty_cells [[4,0,0,0],[0,0,0,0],[0,0,0,0],[0,0,0,0]] \<noteq> []"
    by code_simp+
  have o: "\<not> is_game_over [[4,2,0,0],[0,0,0,0],[0,0,0,0],[0,0,0,0]]"
    by code_simp
  show ?thesis
    by (simp add: move_def s add_new_tile_def e o)
qed

text \<open>
  C5. On every \<open>SIZE \<times> SIZE\<close> board whose cells and score are in the range of the
  array (\<open>in_range\<close>), a move adds to the score exactly the sum, over the rows of the
  transformed board, of the doubled values \<open>2 * v\<close> of the merges of that row
  (\<open>merged_values\<close> lists them); the score does not decrease and stays below
  \<open>2 ^ 63\<close>; a merge of two tiles \<open>v\<close> adds \<open>2 * v\<close>, not \<open>v\<close>; and every state
  of a game of fewer than \<open>2 ^ 30\<close> moves is in that range.
\<close>

theorem C5_score_increase:
  "wf_board (board g) \<Longrightarrow> in_range (board g) (score g) \<Longrightarrow>
   score (fst (move d direction g)) =
     score g + sum_list (map (\<lambda>row. sum_list (merged_values (filter (\<lambda>v. v \<noteq> 0) row)))
                          (forward direction (board g))) \<and>
   score g \<le> score (fst (move d direction g)) \<and>
   score (fst (move d direction g)) < 2 ^ 63 \<and>
   (0 < v \<and> 2 * v < 2 ^ 63 \<and> - (2 ^ 63) \<le> sc \<and> sc + 2 * v < 2 ^ 63 \<longrightarrow>
      snd (slide_row [v, v] sc) = sc + 2 * v) \<and>
   (after_moves n g' \<and> n < 2 ^ 30 \<longrightarrow> wf_board (board g') \<and> in_range (board g') (score g'))"
proof -
  assume b: "wf_board (board g)" and r: "in_range (board g) (score g)"
  let ?rows = "forward direction (board g)"
  have "score (fst (move d direction g)) = score g + sum_list (map row_gain ?rows)"
    using b by (simp add: score_move slide_merge_eq)
  moreover have "row_gain = (\<lambda>row. sum_list (merged_values (filter (\<lambda>v. v \<noteq> 0) row)))"
    by (simp add: fun_eq_iff row_gain_def)
  ultimately have eq: "score (fst (move d direction g)) =
      score g + sum_list (map (\<lambda>row. sum_list (merged_values (filter (\<lambda>v. v \<noteq> 0) row))) ?rows)"
    by simp
  have mono: "score g \<le> score (fst (move d direction g))"
    and below: "score (fst (move d direction g)) < 2 ^ 63"
    by (rule score_move_range [OF b r])+
  have pair: "snd (slide_row [v, v] sc) = sc + 2 * v" if "0 < v"
    using that by (simp add: slide_row_eq row_gain_def)
  have played: "wf_board (board g') \<and> in_range (board g') (score g')"
    if "after_moves n g'" "n < 2 ^ 30"
    using that after_moves_in_range [of n g'] after_moves_reachable [of n g'] reachable_wf_valid [of g']
    by blast
  show ?thesis using eq mono below pair played by blast
qed

theorem C5_score_increase_witness:
  "wf_board (board \<lparr>board = [[2,2,4,4],[0,0,0,0],[0,8,0,8],[0,0,0,0]], score = 10, game_over = False\<rparr>) \<and>
   in_range (board \<lparr>board = [[2,2,4,4],[0,0,0,0],[0,8,0,8],[0,0,0,0]], score = 10, game_over = False\<rparr>)
            (score \<lparr>board = [[2,2,4,4],[0,0,0,0],[0,8,0,8],[0,0,0,0]], score = 10, game_over = False\<rparr>) \<and>
   score (fst (move \<lparr>choice = 0, random = 0\<rparr> 3
      \<lparr>board = [[2,2,4,4],[0,0,0,0],[0,8,0,8],[0,0,0,0]], score = 10, game_over = False\<rparr>)) = 10 + (4 + 8 + 16) \<and>
   score \<lparr>board = [[2,2,4,4],[0,0,0,0],[0,8,0,8],[0,0,0,0]], score = 10, game_over = False\<rparr>
     \<le> score (fst (move \<lparr>choice = 0, random = 0\<rparr> 3
      \<lparr>board = [[2,2,4,4],[0,0,0,0],[0,8,0,8],[0,0,0,0]], score = 10, game_over = False\<rparr>)) \<and>
   snd (slide_row [2, 2] 0) = 0 + 2 * 2 \<and>
   after_moves 0 (reset \<lparr>choice = 5, random = 0.5\<rparr> \<lparr>choice = 20, random = 0.95\<rparr>
      \<lparr>board = [], score = 7, game_over = True\<rparr>) \<and>
   in_range (board (reset \<lparr>choice = 5, random = 0.5\<rparr> \<lparr>choice = 20, random = 0.95\<rparr>
      \<lparr>board = [], score = 7, game_over = True\<rparr>))
     (score (reset \<lparr>choice = 5, random = 0.5\<rparr> \<lparr>choice = 20, random = 0.95\<rparr>
      \<lparr>board = [], score = 7, game_over = True\<rparr>))"
proof -
  let ?g = "\<lparr>board = [[2,2,4,4],[0,0,0,0],[0,8,0,8],[0,0,0,0]], score = 10, game_over = False\<rparr>"
  let ?r = "reset \<lparr>choice = 5, random = 0.5\<rparr> \<lparr>choice = 20, random = 0.95\<rparr>
      \<lparr>board = [], score = 7, game_over = True\<rparr>"
  have wf: "wf_board (board ?g)" by (simp add: wf_board_def SIZE_def)
  have r: "in_range (board ?g) (score ?g)"
    by (simp add: in_range_def cells_in_range_def total_def)
  have s: "sum_list (map (\<lambda>row. sum_list (merged_values (filter (\<lambda>v. v \<noteq> 0) row)))
             (forward 3 (board ?g))) = 4 + 8 + 16"
    by (simp add: forward_def)
  have p: "(0::int) < 2 \<and> 2 * 2 < (2::int) ^ 63 \<and> - (2 ^ 63) \<le> (0::int) \<and> 0 + 2 * 2 < (2::int) ^ 63"
    by simp
  have a: "after_moves 0 ?r" by (rule after_moves.reset)
  have n: "(0::nat) < 2 ^ 30" by simp
  note inst = C5_score_increase [OF wf r, of "\<lparr>choice = 0, random = 0\<rparr>" 3 2 0 0 ?r]
  have 1: "score (fst (move \<lparr>choice = 0, random = 0\<rparr> 3 ?g)) = 10 + (4 + 8 + 16)"
    using inst s by simp
  have 2: "score ?g \<le> score (fst (move \<lparr>choice = 0, random = 0\<rparr> 3 ?g))"
    using inst by blast
  have 3: "snd (slide_row [2, 2] 0) = 0 + 2 * 2"
    using inst p by blast
  have 4: "in_range (board ?r) (score ?r)"
    using inst a n by blast
  show ?thesis using wf r 1 2 3 a 4 by blast
qed

text \<open>
  C6. If the slide and merge leaves every cell of a \<open>SIZE \<times> SIZE\<close> board as it was,
  the move is a no-op: \<open>move\<close> returns the state it was given (board, score and
  \<open>game_over\<close> flag) and \<open>False\<close>; no tile is spawned, so the number of non-zero cells
  is unchanged.
\<close>

theorem C6_unchanged_grid_is_noop:
  "wf_board (board g) \<Longrightarrow> fst (slide_merge direction (board g) (score g)) = board g \<Longrightarrow>
   move d direction g = (g, False) \<and>
   tiles (board (fst (move d direction g))) = tiles (board g)"
proof -
  assume b: "wf_board (board g)" and fixed: "fst (slide_merge direction (board g) (score g)) = board g"
  have "snd (slide_merge direction (board g) (score g)) = score g"
    by (rule slide_fixed_gain [OF b fixed])
  then have "slide_merge direction (board g) (score g) = (board g, score g)"
    using fixed by (simp add: prod_eq_iff)
  then have "move d direction g = (g, False)" by (simp add: move_def)
  then show ?thesis by simp
qed

theorem C6_unchanged_grid_is_noop_witness:
  "wf_board (board \<lparr>board = [[2,4,0,0],[4,0,0,0],[0,0,0,0],[8,2,8,0]], score = 12, game_over = False\<rparr>) \<and>
   fst (slide_merge 3 (board \<lparr>board = [[2,4,0,0],[4,0,0,0],[0,0,0,0],[8,2,8,0]], score = 12, game_over = False\<rparr>)
          (score \<lparr>board = [[2,4,0,0],[4,0,0,0],[0,0,0,0],[8,2,8,0]], score = 12, game_over = False\<rparr>))
     = board \<lparr>board = [[2,4,0,0],[4,0,0,0],[0,0,0,0],[8,2,8,0]], score = 12, game_over = False\<rparr> \<and>
   move \<lparr>choice = 3, random = 0\<rparr> 3 \<lparr>board = [[2,4,0,0],[4,0,0,0],[0,0,0,0],[8,2,8,0]], score = 12, game_over = False\<rparr>
     = (\<lparr>board = [[2,4,0,0],[4,0,0,0],[0,0,0,0],[8,2,8,0]], score = 12, game_over = False\<rparr>, False)"
proof -
  let ?g = "\<lparr>board = [[2,4,0,0],[4,0,0,0],[0,0,0,0],[8,2,8,0]], score = 12, game_over = False\<rparr>"
  have wf: "wf_board (board ?g)" by (simp add: wf_board_def SIZE_def)
  have "fst (slide_merge 3 [[2,4,0,0],[4,0,0,0],[0,0,0,0],[8,2,8,0]] 12) = [[2,4,0,0],[4,0,0,0],[0,0,0,0],[8,2,8,0]]"
    by code_simp
  then have fixed: "fst (slide_merge 3 (board ?g) (score ?g)) = board ?g" by simp
  show ?thesis
    using wf fixed C6_unchanged_grid_is_noop [OF wf fixed, of "\<lparr>choice = 3, random = 0\<rparr>"] by blast
qed

text \<open>
  C7. On a \<open>SIZE \<times> SIZE\<close> board for which \<open>is_game_over\<close> holds, \<open>move\<close> in any
  direction returns the state unchanged (board, score and flag) together with \<open>False\<close>;
  it is a value like any other, not an error.
\<close>

theorem C7_terminal_moves_are_noops:
  "wf_board (board g) \<Longrightarrow> is_game_over (board g) \<Longrightarrow> move d direction g = (g, False)"
proof -
  assume b: "wf_board (board g)" and over: "is_game_over (board g)"
  have fixed: "fst (slide_merge direction (board g) (score g)) = board g"
    by (rule game_over_slide [OF b over])
  then have "slide_merge direction (board g) (score g) = (board g, score g)"
    using slide_fixed_gain [OF b fixed] by (simp add: prod_eq_iff)
  then show ?thesis by (simp add: move_def)
qed

theorem C7_terminal_moves_are_noops_witness:
  "wf_board (board \<lparr>board = [[2,4,2,4],[4,2,4,2],[2,4,2,4],[4,2,4,2]], score = 40, game_over = True\<rparr>) \<and>
   is_game_over (board \<lparr>board = [[2,4,2,4],[4,2,4,2],[2,4,2,4],[4,2,4,2]], score = 40, game_over = True\<rparr>) \<and>
   move \<lparr>choice = 1, random = 0\<rparr> 0 \<lparr>board = [[2,4,2,4],[4,2,4,2],[2,4,2,4],[4,2,4,2]], score = 40, game_over = True\<rparr>
     = (\<lparr>board = [[2,4,2,4],[4,2,4,2],[2,4,2,4],[4,2,4,2]], score = 40, game_over = True\<rparr>, False)"
proof -
  let ?g = "\<lparr>board = [[2,4,2,4],[4,2,4,2],[2,4,2,4],[4,2,4,2]], score = 40, game_over = True\<rparr>"
  have wf: "wf_board (board ?g)" by (simp add: wf_board_def SIZE_def)
  have "is_game_over [[2,4,2,4],[4,2,4,2],[2,4,2,4],[4,2,4,2]]" by code_simp
  then have over: "is_game_over (board ?g)" by simp
  show ?thesis
    using wf over C7_terminal_moves_are_noops [OF wf over, of "\<lparr>choice = 1, random = 0\<rparr>" 0] by blast
qed

text \<open>
  C8. After an effective move (the slide and merge changed the board) the board after the
  slide has an empty cell, and the board that \<open>move\<close> leaves is that board with one of its
  empty cells set to 2 or 4: exactly one non-zero cell more.
\<close>

theorem C8_effective_move_spawns_one_tile:
  "wf_board (board g) \<Longrightarrow> fst (slide_merge direction (board g) (score g)) \<noteq> board g \<Longrightarrow>
   empty_cells (fst (slide_merge direction (board g) (score g))) \<noteq> [] \<and>
   tiles (board (fst (move d direction g))) = tiles (fst (slide_merge direction (board g) (score g))) + 1 \<and>
   (\<exists>i j v. i < SIZE \<and> j < SIZE \<and> fst (slide_merge direction (board g) (score g)) ! i ! j = 0 \<and>
      (v = 2 \<or> v = 4) \<and>
      board (fst (move d direction g)) =
        (fst (slide_merge direction (board g) (score g)))
          [i := (fst (slide_merge direction (board g) (score g)) ! i)[j := v]])"
proof -
  assume b: "wf_board (board g)"
    and changed: "fst (slide_merge direction (board g) (score g)) \<noteq> board g"
  let ?b = "fst (slide_merge direction (board g) (score g))"
  let ?g1 = "g\<lparr>board := ?b, score := snd (slide_merge direction (board g) (score g))\<rparr>"
  have wf: "wf_board ?b" by (rule wf_slide_merge [OF b])
  have "0 \<in> set (concat ?b)" using slide_full_fixed [OF b] changed by blast
  then have e: "empty_cells ?b \<noteq> []" using empty_cells_nonempty [OF wf] by simp
  then have e1: "empty_cells (board ?g1) \<noteq> []" by simp
  show ?thesis
  proof (rule add_new_tile_cases [OF e1, of d])
    fix i j v
    assume i: "i < SIZE" and j: "j < SIZE" and z: "board ?g1 ! i ! j = 0" and v: "v = 2 \<or> v = 4"
      and new: "add_new_tile d ?g1 = ?g1\<lparr>board := (board ?g1)[i := (board ?g1 ! i)[j := v]]\<rparr>"
    have z': "?b ! i ! j = 0" using z by simp
    have bm: "board (fst (move d direction g)) = ?b[i := (?b ! i)[j := v]]"
      unfolding board_move_effective [OF changed, of d] new by simp
    have "tiles (?b[i := (?b ! i)[j := v]]) = Suc (tiles ?b)"
      using i j z' v wf by (intro tiles_update) (auto simp: wf_boardD)
    then have t: "tiles (board (fst (move d direction g))) = tiles ?b + 1"
      using bm by simp
    have "\<exists>i j v. i < SIZE \<and> j < SIZE \<and> ?b ! i ! j = 0 \<and> (v = 2 \<or> v = 4) \<and>
        board (fst (move d direction g)) = ?b[i := (?b ! i)[j := v]]"
      using i j z' v bm by blast
    then show ?thesis using e t by blast
  qed
qed

theorem C8_effective_move_spawns_one_tile_witness:
  "wf_board (board \<lparr>board = [[0,2,2,0],[0,0,0,0],[0,0,0,0],[0,0,0,0]], score = 0, game_over = False\<rparr>) \<and>
   fst (slide_merge 3 [[0,2,2,0],[0,0,0,0],[0,0,0,0],[0,0,0,0]] 0) = [[4,0,0,0],[0,0,0,0],[0,0,0,0],[0,0,0,0]] \<and>
   fst (slide_merge 3 [[0,2,2,0],[0,0,0,0],[0,0,0,0],[0,0,0,0]] 0) \<noteq> [[0,2,2,0],[0,0,0,0],[0,0,0,0],[0,0,0,0]] \<and>
   tiles (board (fst (move \<lparr>choice = 0, random = 0\<rparr> 3
      \<lparr>board = [[0,2,2,0],[0,0,0,0],[0,0,0,0],[0,0,0,0]], score = 0, game_over = False\<rparr>))) = 2"
proof -
  let ?g = "\<lparr>board = [[0,2,2,0],[0,0,0,0],[0,0,0,0],[0,0,0,0]], score = 0, game_over = False\<rparr>"
  have wf: "wf_board (board ?g)" by (simp add: wf_board_def SIZE_def)
  have s: "fst (slide_merge 3 [[0,2,2,0],[0,0,0,0],[0,0,0,0],[0,0,0,0]] 0) = [[4,0,0,0],[0,0,0,0],[0,0,0,0],[0,0,0,0]]"
    by code_simp
  then have changed: "fst (slide_merge 3 (board ?g) (score ?g)) \<noteq> board ?g" by simp
  have t: "tiles [[4,0,0,0],[0,0,0,0],[0,0,0,0],[0,0,0,0]] = 1" by (simp add: tiles_def)
  have "tiles (board (fst (move \<lparr>choice = 0, random = 0\<rparr> 3 ?g))) = 2"
    using C8_effective_move_spawns_one_tile [OF wf changed, of "\<lparr>choice = 0, random = 0\<rparr>"] s t by simp
  then show ?thesis using wf s by simp
qed

text \<open>
  C1. The transform route is meant to give, for each direction, what sliding and merging
  in that direction gives. For left, right and up it does (\<open>direct_left_eq\<close>,
  \<open>direct_right_eq\<close>, \<open>direct_up_eq\<close>). For down it does not: \<open>move\<close> takes
  \<open>np.fliplr(self.board).T\<close>, the flip before the transpose, where the route for down is
  the transpose before the flip. A board with a single 2 in its top left corner is left
  as it is by direction 2, while sliding down puts the tile into the bottom row.
\<close>

theorem C1_down_is_not_down:
  "fst (slide_merge 2 [[2,0,0,0],[0,0,0,0],[0,0,0,0],[0,0,0,0]] sc) = [[2,0,0,0],[0,0,0,0],[0,0,0,0],[0,0,0,0]] \<and>
   direct_down [[2,0,0,0],[0,0,0,0],[0,0,0,0],[0,0,0,0]] = [[0,0,0,0],[0,0,0,0],[0,0,0,0],[2,0,0,0]] \<and>
   spec_down [[2,0,0,0],[0,0,0,0],[0,0,0,0],[0,0,0,0]] = [[0,0,0,0],[0,0,0,0],[0,0,0,0],[2,0,0,0]] \<and>
   T (fliplr [[2,0,0,0],[0,0,0,0],[0,0,0,0],[0,0,0,0]]) \<noteq> fliplr (T [[2,0,0,0],[0,0,0,0],[0,0,0,0],[0,0,0,0]]) \<and>
   move d 2 \<lparr>board = [[2,0,0,0],[0,0,0,0],[0,0,0,0],[0,0,0,0]], score = sc, game_over = False\<rparr>
     = (\<lparr>board = [[2,0,0,0],[0,0,0,0],[0,0,0,0],[0,0,0,0]], score = sc, game_over = False\<rparr>, False)"
proof -
  have "slide_merge 2 [[2,0,0,0],[0,0,0,0],[0,0,0,0],[0,0,0,0]] 0 = ([[2,0,0,0],[0,0,0,0],[0,0,0,0],[0,0,0,0]], 0)"
    by code_simp
  moreover have wf: "wf_board [[2,0,0,0],[0,0,0,0],[0,0,0,0],[0,0,0,0]]"
    by (simp add: wf_board_def SIZE_def)
  ultimately have a: "fst (slide_merge 2 [[2,0,0,0],[0,0,0,0],[0,0,0,0],[0,0,0,0]] sc) = [[2,0,0,0],[0,0,0,0],[0,0,0,0],[0,0,0,0]]"
    by (simp add: slide_merge_eq)
  have b: "direct_down [[2,0,0,0],[0,0,0,0],[0,0,0,0],[0,0,0,0]] = [[0,0,0,0],[0,0,0,0],[0,0,0,0],[2,0,0,0]]"
    by code_simp
  have c: "spec_down [[2,0,0,0],[0,0,0,0],[0,0,0,0],[0,0,0,0]] = [[0,0,0,0],[0,0,0,0],[0,0,0,0],[2,0,0,0]]"
    by code_simp
  have d: "T (fliplr [[2,0,0,0],[0,0,0,0],[0,0,0,0],[0,0,0,0]]) \<noteq> fliplr (T [[2,0,0,0],[0,0,0,0],[0,0,0,0],[0,0,0,0]])"
    by code_simp
  have "snd (slide_merge 2 [[2,0,0,0],[0,0,0,0],[0,0,0,0],[0,0,0,0]] sc) = sc"
    by (rule slide_fixed_gain [OF wf a])
  then have "slide_merge 2 [[2,0,0,0],[0,0,0,0],[0,0,0,0],[0,0,0,0]] sc
      = ([[2,0,0,0],[0,0,0,0],[0,0,0,0],[0,0,0,0]], sc)"
    using a by (simp add: prod_eq_iff)
  then have e: "move d 2 \<lparr>board = [[2,0,0,0],[0,0,0,0],[0,0,0,0],[0,0,0,0]], score = sc, game_over = False\<rparr>
     = (\<lparr>board = [[2,0,0,0],[0,0,0,0],[0,0,0,0],[0,0,0,0]], score = sc, game_over = False\<rparr>, False)"
    by (simp add: move_def)
  show ?thesis using a b c d e by blast
qed

text \<open>
  C9. Every cell of every reachable state is 0 or a power of two from 2 on; \<open>reset\<close>
  gives such a board and spawning keeps a board such; the slide and merge keeps a
  \<open>SIZE \<times> SIZE\<close> board such when twice each of its cells is below \<open>2 ^ 63\<close>, and
  leaves every cell below \<open>2 ^ 63\<close>; the boards of a game of fewer than \<open>2 ^ 59\<close>
  moves have their cells in that range.
\<close>

theorem C9_cells_zero_or_power_of_two:
  "(reachable g \<longrightarrow> valid_board (board g)) \<and>
   valid_board (board (reset d1 d2 g0)) \<and>
   (valid_board (board g1) \<longrightarrow> valid_board (board (add_new_tile d g1))) \<and>
   (wf_board b \<and> valid_board b \<and> cells_in_range b \<longrightarrow>
      valid_board (fst (slide_merge direction b sc)) \<and>
      list_all (list_all (\<lambda>v. 0 \<le> v \<and> v < 2 ^ 63)) (fst (slide_merge direction b sc))) \<and>
   (after_moves n g2 \<and> n < 2 ^ 59 \<longrightarrow> cells_in_range (board g2))"
  using reachable_wf_valid [of g] valid_reset [of d1 d2 g0] valid_add_new_tile [of g1 d]
    valid_slide_merge [of b direction sc] slide_merge_cells_range [of b direction sc]
    after_moves_cells_in_range [of n g2]
  by blast

theorem C9_cells_zero_or_power_of_two_witness:
  "reachable (fst (move \<lparr>choice = 0, random = 0\<rparr> 3
      (reset \<lparr>choice = 5, random = 0.5\<rparr> \<lparr>choice = 20, random = 0.95\<rparr>
         \<lparr>board = [], score = 0, game_over = False\<rparr>))) \<and>
   valid_board (board (fst (move \<lparr>choice = 0, random = 0\<rparr> 3
      (reset \<lparr>choice = 5, random = 0.5\<rparr> \<lparr>choice = 20, random = 0.95\<rparr>
         \<lparr>board = [], score = 0, game_over = False\<rparr>)))) \<and>
   valid_board (board \<lparr>board = [[0,2,2,0],[0,0,0,0],[0,0,0,0],[0,0,4,0]], score = 0, game_over = False\<rparr>) \<and>
   valid_board (board (add_new_tile \<lparr>choice = 0, random = 0\<rparr>
      \<lparr>board = [[0,2,2,0],[0,0,0,0],[0,0,0,0],[0,0,4,0]], score = 0, game_over = False\<rparr>)) \<and>
   wf_board [[0,2,2,0],[0,0,0,0],[0,0,0,0],[0,0,4,0]] \<and>
   valid_board [[0,2,2,0],[0,0,0,0],[0,0,0,0],[0,0,4,0]] \<and>
   cells_in_range [[0,2,2,0],[0,0,0,0],[0,0,0,0],[0,0,4,0]] \<and>
   valid_board (fst (slide_merge 3 [[0,2,2,0],[0,0,0,0],[0,0,0,0],[0,0,4,0]] 0)) \<and>
   fst (slide_merge 3 [[0,2,2,0],[0,0,0,0],[0,0,0,0],[0,0,4,0]] 0)
     = [[4,0,0,0],[0,0,0,0],[0,0,0,0],[4,0,0,0]] \<and>
   after_moves 1 (fst (move \<lparr>choice = 0, random = 0\<rparr> 3
      (reset \<lparr>choice = 5, random = 0.5\<rparr> \<lparr>choice = 20, random = 0.95\<rparr>
         \<lparr>board = [], score = 0, game_over = False\<rparr>))) \<and>
   cells_in_range (board (fst (move \<lparr>choice = 0, random = 0\<rparr> 3
      (reset \<lparr>choice = 5, random = 0.5\<rparr> \<lparr>choice = 20, random = 0.95\<rparr>
         \<lparr>board = [], score = 0, game_over = False\<rparr>))))"
proof -
  let ?g = "fst (move \<lparr>choice = 0, random = 0\<rparr> 3
      (reset \<lparr>choice = 5, random = 0.5\<rparr> \<lparr>choice = 20, random = 0.95\<rparr>
         \<lparr>board = [], score = 0, game_over = False\<rparr>))"
  let ?g1 = "\<lparr>board = [[0,2,2,0],[0,0,0,0],[0,0,0,0],[0,0,4,0]], score = 0, game_over = False\<rparr>"
  have r: "reachable ?g" by (intro reachable.intros)
  have a: "after_moves 1 ?g" unfolding One_nat_def by (intro after_moves.intros)
  have n: "(1::nat) < 2 ^ 59" by simp
  have v: "valid_board [[0,2,2,0],[0,0,0,0],[0,0,0,0],[0,0,4,0]]"
    by (simp add: valid_board_def)
  then have v1: "valid_board (board ?g1)" by simp
  have wf: "wf_board [[0,2,2,0],[0,0,0,0],[0,0,0,0],[0,0,4,0]]"
    by (simp add: wf_board_def SIZE_def)
  have c: "cells_in_range [[0,2,2,0],[0,0,0,0],[0,0,0,0],[0,0,4,0]]"
    by (simp add: cells_in_range_def)
  have s: "fst (slide_merge 3 [[0,2,2,0],[0,0,0,0],[0,0,0,0],[0,0,4,0]] 0)
     = [[4,0,0,0],[0,0,0,0],[0,0,0,0],[4,0,0,0]]"
    by code_simp
  show ?thesis
    using r a n v v1 wf c s
      C9_cells_zero_or_power_of_two [where g = ?g and ?g1.0 = ?g1
        and d = "\<lparr>choice = 0, random = 0\<rparr>"
        and b = "[[0,2,2,0],[0,0,0,0],[0,0,0,0],[0,0,4,0]]" and direction = 3 and sc = 0
        and n = 1 and ?g2.0 = ?g]
    by blast
qed

text \<open>
  C10. From any state and with any draws, \<open>reset\<close> gives a board with exactly two
  non-zero cells, every cell being 0, 2 or 4, the score 0 and the \<open>game_over\<close> flag
  false; the board is not a terminal one either.
\<close>

theorem C10_reset_state:
  "tiles (board (reset d1 d2 g)) = 2 \<and>
   (\<forall>row \<in> set (board (reset d1 d2 g)). \<forall>v \<in> set row. v = 0 \<or> v = 2 \<or> v = 4) \<and>
   score (reset d1 d2 g) = 0 \<and>
   game_over (reset d1 d2 g) = False \<and>
   is_game_over (board (reset d1 d2 g)) = False"
proof -
  let ?g0 = "g\<lparr>board := zeros, score := 0\<rparr>"
  let ?g1 = "add_new_tile d1 ?g0"
  have wf0: "wf_board (board ?g0)" by simp
  have e0: "empty_cells (board ?g0) \<noteq> []"
    by (intro empty_cells_left) (simp_all add: SIZE_def)
  have t1: "tiles (board ?g1) = 1"
    using tiles_add_new_tile [OF wf0 e0, of d1] by simp
  have wf1: "wf_board (board ?g1)" by (rule wf_add_new_tile [OF wf0])
  have e1: "empty_cells (board ?g1) \<noteq> []"
    using size_bound t1 by (intro empty_cells_left [OF wf1]) simp
  have t2: "tiles (board (add_new_tile d2 ?g1)) = 2"
    using tiles_add_new_tile [OF wf1 e1, of d2] t1 by simp
  have "\<forall>row \<in> set (board ?g0). \<forall>v \<in> set row. v = 0 \<or> v = 2 \<or> v = 4"
    by (auto simp: zeros_def)
  then have "\<forall>row \<in> set (board ?g1). \<forall>v \<in> set row. v = 0 \<or> v = 2 \<or> v = 4"
    by (rule cells_add_new_tile) simp_all
  then have "\<forall>row \<in> set (board (add_new_tile d2 ?g1)). \<forall>v \<in> set row. v = 0 \<or> v = 2 \<or> v = 4"
    by (rule cells_add_new_tile) simp_all
  moreover have "\<not> is_game_over (board (add_new_tile d2 ?g1))"
  proof -
    have "wf_board (board (add_new_tile d2 ?g1))" by (rule wf_add_new_tile [OF wf1])
    moreover have "tiles (board (add_new_tile d2 ?g1)) < SIZE * SIZE"
      using t2 by (simp add: SIZE_def)
    ultimately have "empty_cells (board (add_new_tile d2 ?g1)) \<noteq> []"
      by (rule empty_cells_left)
    then have "0 \<in> set (concat (board (add_new_tile d2 ?g1)))"
      using empty_cells_nonempty [OF \<open>wf_board (board (add_new_tile d2 ?g1))\<close>] by simp
    then show ?thesis by (simp add: is_game_over_def del: set_concat)
  qed
  ultimately show ?thesis using t2 by (simp add: reset_def)
qed

theorem C10_reset_state_witness:
  "tiles (board (reset \<lparr>choice = 5, random = 0.5\<rparr> \<lparr>choice = 20, random = 0.95\<rparr>
            \<lparr>board = [[2,4,2,4],[4,2,4,2],[2,4,2,4],[4,2,4,2]], score = 40, game_over = True\<rparr>)) = 2 \<and>
   board (reset \<lparr>choice = 5, random = 0.5\<rparr> \<lparr>choice = 20, random = 0.95\<rparr>
            \<lparr>board = [[2,4,2,4],[4,2,4,2],[2,4,2,4],[4,2,4,2]], score = 40, game_over = True\<rparr>)
     = [[0,0,0,0],[0,2,4,0],[0,0,0,0],[0,0,0,0]]"
proof -
  let ?g = "\<lparr>board = [[2,4,2,4],[4,2,4,2],[2,4,2,4],[4,2,4,2]], score = 40, game_over = True\<rparr>"
  have e0: "empty_cells zeros \<noteq> []" "length (empty_cells zeros) = 16" "empty_cells zeros ! 5 = (1, 1)"
    by code_simp+
  have z: "zeros[Suc 0 := (zeros ! Suc 0)[Suc 0 := 2]] = [[0,0,0,0],[0,2,0,0],[0,0,0,0],[0,0,0,0]]"
    by code_simp
  have e1: "empty_cells [[0,0,0,0],[0,2,0,0],[0,0,0,0],[0,0,0,0]] \<noteq> []"
    "length (empty_cells [[0,0,0,0],[0,2,0,0],[0,0,0,0],[0,0,0,0]]) = 15"
    "empty_cells [[0,0,0,0],[0,2,0,0],[0,0,0,0],[0,0,0,0]] ! 5 = (1, 2)"
    by code_simp+
  have b: "board (reset \<lparr>choice = 5, random = 0.5\<rparr> \<lparr>choice = 20, random = 0.95\<rparr> ?g)
      = [[0,0,0,0],[0,2,4,0],[0,0,0,0],[0,0,0,0]]"
    by (simp add: reset_def add_new_tile_def e0 z e1)
  show ?thesis
    using b C10_reset_state [of "\<lparr>choice = 5, random = 0.5\<rparr>" "\<lparr>choice = 20, random = 0.95\<rparr>" ?g]
    by simp
qed

end
